theory Spec2Isabelle
  imports Complex_Main "HOL-Library.Word"
begin

section \<open>Data model of TriMesh and TriMeshPeriodic\<close>

text \<open>
  The embedding follows \<^verbatim>\<open>src/libsurfer/src/TriMesh.cpp\<close> and
  \<^verbatim>\<open>src/libsurfer/src/TriMesh_cgal.cpp\<close>.

  \<^item> \<^verbatim>\<open>TypeFunction\<close> is a C float. A finite float is the real number it denotes, and the
    comparison of two finite floats is the comparison of these numbers. Float arithmetic
    rounds, and no rounding is fixed here: the float sum, difference and product are the
    fields of a record \<open>float_ops\<close> that the operations computing with floats take as a
    parameter, so that what is proved of them holds for every rounding. Infinities and NaN
    are not values of the model.
  \<^item> \<^verbatim>\<open>Vertex\<close>, \<^verbatim>\<open>Normal\<close> (\<^verbatim>\<open>Vec<3,TypeFunction>\<close>), \<^verbatim>\<open>Face\<close>
    (\<^verbatim>\<open>Vec<3,TypeIndex>\<close>) and \<^verbatim>\<open>Offset3\<close> are triples, read and written by a local
    index 0, 1, 2.
  \<^item> \<^verbatim>\<open>uint8_t\<close> is \<open>8 word\<close>, \<^verbatim>\<open>uint32_t\<close> is \<open>32 word\<close>; \<^verbatim>\<open>size_t\<close> is a
    natural number with the 64-bit wrap-around written out where the source subtracts.
  \<^item> An exception is a value \<open>Inl e\<close>. An out-of-range access of a \<^verbatim>\<open>std::vector\<close> or of
    an array (undefined behaviour in C++) is the value \<open>Inl OutOfRange\<close>.
  \<^item> The \<^verbatim>\<open>#pragma omp parallel for\<close> loops are modelled in their sequential order.
\<close>

datatype error = InvalidArgument | LogicError | OutOfRange

type_synonym vertex = "real \<times> real \<times> real"
type_synonym face = "nat \<times> nat \<times> nat"
type_synonym offset3 = "int \<times> int \<times> int"
type_synonym edge = "nat \<times> nat"
type_synonym dupMap = "nat \<times> int \<times> int"

fun at3 :: "'a \<times> 'a \<times> 'a \<Rightarrow> nat \<Rightarrow> 'a" where
  "at3 (a, b, c) k = (if k = 0 then a else if k = 1 then b else c)"

fun upd3 :: "'a \<times> 'a \<times> 'a \<Rightarrow> nat \<Rightarrow> 'a \<Rightarrow> 'a \<times> 'a \<times> 'a" where
  "upd3 (a, b, c) k x = (if k = 0 then (x, b, c) else if k = 1 then (a, x, c) else (a, b, x))"

record float_ops =
  fl_add :: "real \<Rightarrow> real \<Rightarrow> real"
  fl_sub :: "real \<Rightarrow> real \<Rightarrow> real"
  fl_mul :: "real \<Rightarrow> real \<Rightarrow> real"

text \<open>
  Arithmetic without rounding: what float arithmetic computes wherever the exact result is
  itself a float, as for the small dyadic numbers of the examples below.
\<close>

definition exact_ops :: float_ops where
  "exact_ops = \<lparr> fl_add = (+), fl_sub = (-), fl_mul = (*) \<rparr>"

text \<open>The difference of two \<^verbatim>\<open>Vec<3,TypeFunction>\<close>, component by component.\<close>

fun vsub :: "float_ops \<Rightarrow> vertex \<Rightarrow> vertex \<Rightarrow> vertex" where
  "vsub ops (a, b, c) (x, y, z) = (fl_sub ops a x, fl_sub ops b y, fl_sub ops c z)"

record trimesh =
  mDim :: "8 word"
  mVertices :: "vertex list"
  mFaces :: "face list"
  mFields :: "(string \<times> real option list) list"
  mPointNormals :: "vertex list"
  mFaceNormals :: "vertex list"
  mVAdjFaces :: "nat list list"
  mFAcrossEdge :: "offset3 list"
  bedges :: "edge list"

record trimesh_periodic = trimesh +
  mBox0 :: vertex
  mBox1 :: vertex
  bbox_valid :: bool
  mPeriodicFaces :: "face list"
  mTrimmedFaces :: "face list"
  mDuplicateVerts_OrigIds :: "dupMap list"
  mDuplicateVerts :: "vertex list"

text \<open>A mesh object with the given dimensionality, vertices and faces, and nothing cached.\<close>

definition plain_mesh :: "8 word \<Rightarrow> vertex list \<Rightarrow> face list \<Rightarrow> trimesh" where
  "plain_mesh d vs fs =
     \<lparr> mDim = d, mVertices = vs, mFaces = fs, mFields = [], mPointNormals = [],
       mFaceNormals = [], mVAdjFaces = [], mFAcrossEdge = [], bedges = [] \<rparr>"

definition periodic_mesh :: "8 word \<Rightarrow> vertex list \<Rightarrow> trimesh_periodic" where
  "periodic_mesh d vs =
     \<lparr> mDim = d, mVertices = vs, mFaces = [], mFields = [], mPointNormals = [],
       mFaceNormals = [], mVAdjFaces = [], mFAcrossEdge = [], bedges = [],
       mBox0 = (0, 0, 0), mBox1 = (0, 0, 0), bbox_valid = False, mPeriodicFaces = [],
       mTrimmedFaces = [], mDuplicateVerts_OrigIds = [], mDuplicateVerts = [] \<rparr>"

section \<open>TriMesh::set\_dimensionality\<close>

text \<open>
  The member is assigned first and tested afterwards, so the outcome is a pair: what the call
  returns or throws, and the object as the call leaves it.
\<close>

definition set_dimensionality ::
  "'a trimesh_scheme \<Rightarrow> 8 word \<Rightarrow> (error + bool) \<times> 'a trimesh_scheme" where
  "set_dimensionality m d =
     (let m' = m\<lparr>mDim := d\<rparr>
      in if mDim m' \<noteq> 2 \<and> mDim m' \<noteq> 3 then (Inl InvalidArgument, m') else (Inr True, m'))"

section \<open>TriMeshPeriodic::set\_bbox and TriMeshPeriodic::wrap\_vertices\<close>

text \<open>
  \<^verbatim>\<open>set_bbox(float *_, int n)\<close>: the list is the array the pointer addresses; reading
  past its end is \<open>OutOfRange\<close>. The object is written only on the paths that do not throw.
\<close>

definition set_bbox :: "trimesh_periodic \<Rightarrow> real list \<Rightarrow> int \<Rightarrow> error + trimesh_periodic" where
  "set_bbox m vs n =
     (if n = 2 \<and> mDim m = 2 then
        (if length vs < 2 then Inl OutOfRange
         else Inr (m\<lparr>mBox0 := (0, 0, 0), mBox1 := (vs ! 0, vs ! 1, 0), bbox_valid := True\<rparr>))
      else if n = 3 \<and> mDim m = 3 then
        (if length vs < 3 then Inl OutOfRange
         else Inr (m\<lparr>mBox0 := (0, 0, 0), mBox1 := (vs ! 0, vs ! 1, vs ! 2), bbox_valid := True\<rparr>))
      else if n = 4 \<and> mDim m = 2 then
        (if length vs < 4 then Inl OutOfRange
         else Inr (m\<lparr>mBox0 := (vs ! 0, vs ! 1, 0), mBox1 := (vs ! 2, vs ! 3, 0), bbox_valid := True\<rparr>))
      else if n = 6 \<and> mDim m = 3 then
        (if length vs < 6 then Inl OutOfRange
         else Inr (m\<lparr>mBox0 := (vs ! 0, vs ! 1, vs ! 2), mBox1 := (vs ! 3, vs ! 4, vs ! 5),
                     bbox_valid := True\<rparr>))
      else Inl InvalidArgument)"

text \<open>
  The two tests of the inner loop body of \<^verbatim>\<open>wrap_vertices\<close>, in the source's order:
  \<^verbatim>\<open>x += boxw[d]\<close> is a float sum, \<^verbatim>\<open>x -= boxw[d]\<close> a float difference, and the second
  test reads the coordinate as the first one left it.
\<close>

definition wrap_coord :: "float_ops \<Rightarrow> real \<Rightarrow> real \<Rightarrow> real \<Rightarrow> real \<Rightarrow> real" where
  "wrap_coord ops b0 b1 w x =
     (let x1 = (if x < b0 then fl_add ops x w else x)
      in if x1 \<ge> b1 then fl_sub ops x1 w else x1)"

text \<open>The loop over \<open>d\<close>; a \<^verbatim>\<open>Vec<3,...>\<close> has no component 3 or above.\<close>

fun wrap_dims ::
  "float_ops \<Rightarrow> vertex \<Rightarrow> vertex \<Rightarrow> vertex \<Rightarrow> nat list \<Rightarrow> vertex \<Rightarrow> error + vertex" where
  "wrap_dims ops b0 b1 boxw [] v = Inr v"
| "wrap_dims ops b0 b1 boxw (d # ds) v =
     (if d < 3
      then wrap_dims ops b0 b1 boxw ds
             (upd3 v d (wrap_coord ops (at3 b0 d) (at3 b1 d) (at3 boxw d) (at3 v d)))
      else Inl OutOfRange)"

text \<open>The loop over the vertices.\<close>

fun wrap_all ::
  "float_ops \<Rightarrow> vertex \<Rightarrow> vertex \<Rightarrow> vertex \<Rightarrow> nat \<Rightarrow> vertex list \<Rightarrow> error + vertex list" where
  "wrap_all ops b0 b1 boxw ndim [] = Inr []"
| "wrap_all ops b0 b1 boxw ndim (v # vs) =
     (case wrap_dims ops b0 b1 boxw [0..<ndim] v of
        Inl e \<Rightarrow> Inl e
      | Inr v' \<Rightarrow> (case wrap_all ops b0 b1 boxw ndim vs of
                     Inl e \<Rightarrow> Inl e
                   | Inr vs' \<Rightarrow> Inr (v' # vs')))"

definition wrap_vertices ::
  "float_ops \<Rightarrow> trimesh_periodic \<Rightarrow> 8 word \<Rightarrow> error + trimesh_periodic" where
  "wrap_vertices ops m ndim =
     (if ndim < 1 \<or> ndim > mDim m then Inl LogicError
      else if \<not> bbox_valid m then Inl LogicError
      else (let boxw = vsub ops (mBox1 m) (mBox0 m)
            in case wrap_all ops (mBox0 m) (mBox1 m) boxw (unat ndim) (mVertices m) of
                 Inl e \<Rightarrow> Inl e
               | Inr vs \<Rightarrow> Inr (m\<lparr>mVertices := vs\<rparr>)))"

section \<open>Example inputs\<close>

text \<open>A 2D periodic mesh of two vertices with the box \<open>[0,1) \<times> [0,1)\<close> already set.\<close>

definition boxed_mesh :: trimesh_periodic where
  "boxed_mesh = (periodic_mesh 2 [(-1/2, 3/2, 7), (1/4, 1, -3)])
                   \<lparr>mBox0 := (0, 0, 0), mBox1 := (1, 1, 0), bbox_valid := True\<rparr>"

text \<open>
  A 2D periodic mesh of one vertex whose box has been set from the four values 1, 1, 0, 0:
  the minimum corner is above the maximum corner.
\<close>

definition inverted_mesh :: trimesh_periodic where
  "inverted_mesh = (periodic_mesh 2 [(1/2, 1/2, 0)])
                      \<lparr>mBox0 := (1, 1, 0), mBox1 := (0, 0, 0), bbox_valid := True\<rparr>"

section \<open>TriMesh::write\_binary\<close>

text \<open>
  The file is the list of tokens written to it, in order. A token stands for the consecutive
  \<^verbatim>\<open>fwrite\<close> calls that emit it:
  \<^item> \<open>Header\<close>: the index size, the scalar size and the three dummy dimensions;
  \<^item> \<open>TokV\<close>: the character \<^verbatim>\<open>'v'\<close>, the vertex index, the three position scalars and
    one scalar per field, in the iteration order of \<^verbatim>\<open>mFields\<close>;
  \<^item> \<open>TokE\<close>: the character \<^verbatim>\<open>'e'\<close> and the two endpoint indices;
  \<^item> \<open>TokF\<close>: the character \<^verbatim>\<open>'f'\<close> and the vertex index.

  \<^verbatim>\<open>mFields\<close> (a \<^verbatim>\<open>std::map\<close> from names to vectors) is an association list in the
  map's iteration order. A field value is \<open>Some x\<close> for a finite scalar and \<open>None\<close> for an
  infinity or a NaN (which \<^verbatim>\<open>need_pointareas\<close> can store).
\<close>

datatype token =
    Header "32 word" "32 word" "32 word list"
  | TokV nat vertex "real option list"
  | TokE nat nat
  | TokF nat

fun corners :: "face \<Rightarrow> nat list" where
  "corners (a, b, c) = [a, b, c]"

text \<open>
  First pass: \<^verbatim>\<open>counts\<close> (8-bit) and \<^verbatim>\<open>first\<close> (32-bit) per vertex; \<^verbatim>\<open>count\<close> is the
  32-bit running face number. The three increments and the three minima are sequential.
\<close>

fun count_faces ::
  "8 word list \<Rightarrow> 32 word list \<Rightarrow> 32 word \<Rightarrow> face list \<Rightarrow> error + (8 word list \<times> 32 word list)"
where
  "count_faces counts first count [] = Inr (counts, first)"
| "count_faces counts first count ((f0, f1, f2) # fs) =
     (if f0 < length counts \<and> f1 < length counts \<and> f2 < length counts
         \<and> f0 < length first \<and> f1 < length first \<and> f2 < length first
      then
        (let counts = counts[f0 := counts ! f0 + 1];
             counts = counts[f1 := counts ! f1 + 1];
             counts = counts[f2 := counts ! f2 + 1];
             first = first[f0 := min (first ! f0) count];
             first = first[f1 := min (first ! f1) count];
             first = first[f2 := min (first ! f2) count]
         in count_faces counts first (count + 1) fs)
      else Inl OutOfRange)"

text \<open>The \<^verbatim>\<open>'v'\<close> token of one vertex: its position and its value in every field.\<close>

definition vertex_token ::
  "vertex list \<Rightarrow> (string \<times> real option list) list \<Rightarrow> nat \<Rightarrow> error + token" where
  "vertex_token verts flds vert =
     (if vert < length verts \<and> list_all (\<lambda>(name, data). vert < length data) flds
      then Inr (TokV vert (verts ! vert) (map (\<lambda>(name, data). data ! vert) flds))
      else Inl OutOfRange)"

text \<open>The loop over the three corners that writes the vertices seen for the first time.\<close>

fun write_verts ::
  "vertex list \<Rightarrow> (string \<times> real option list) list \<Rightarrow> 32 word list \<Rightarrow> 32 word \<Rightarrow> nat list
   \<Rightarrow> error + token list"
where
  "write_verts verts flds first count [] = Inr []"
| "write_verts verts flds first count (vert # rest) =
     (if vert < length first then
        (if count = first ! vert then
           (case vertex_token verts flds vert of
              Inl e \<Rightarrow> Inl e
            | Inr t \<Rightarrow> (case write_verts verts flds first count rest of
                          Inl e \<Rightarrow> Inl e
                        | Inr ts \<Rightarrow> Inr (t # ts)))
         else write_verts verts flds first count rest)
      else Inl OutOfRange)"

text \<open>
  The loop over the three corners that decrements the 8-bit counter of each and writes an
  \<^verbatim>\<open>'f'\<close> token when the counter reads zero.
\<close>

fun close_corners :: "8 word list \<Rightarrow> nat list \<Rightarrow> error + (8 word list \<times> token list)" where
  "close_corners counts [] = Inr (counts, [])"
| "close_corners counts (v # vs) =
     (if v < length counts then
        (let counts' = counts[v := counts ! v - 1]
         in case close_corners counts' vs of
              Inl e \<Rightarrow> Inl e
            | Inr (cs, out) \<Rightarrow> Inr (cs, (if counts' ! v = 0 then [TokF v] else []) @ out))
      else Inl OutOfRange)"

text \<open>Second pass: per face the new vertices, the three directed edges, the closed vertices.\<close>

fun write_faces ::
  "vertex list \<Rightarrow> (string \<times> real option list) list \<Rightarrow> 32 word list \<Rightarrow> 8 word list \<Rightarrow> 32 word
   \<Rightarrow> face list \<Rightarrow> error + token list"
where
  "write_faces verts flds first counts count [] = Inr []"
| "write_faces verts flds first counts count (face # faces) =
     (case write_verts verts flds first count (corners face) of
        Inl e \<Rightarrow> Inl e
      | Inr vtoks \<Rightarrow>
          (let etoks = [TokE (at3 face 0) (at3 face 1), TokE (at3 face 1) (at3 face 2),
                        TokE (at3 face 2) (at3 face 0)]
           in case close_corners counts (corners face) of
                Inl e \<Rightarrow> Inl e
              | Inr (counts', ftoks) \<Rightarrow>
                  (case write_faces verts flds first counts' (count + 1) faces of
                     Inl e \<Rightarrow> Inl e
                   | Inr rest \<Rightarrow> Inr (vtoks @ etoks @ ftoks @ rest))))"

definition write_binary :: "'a trimesh_scheme \<Rightarrow> error + token list" where
  "write_binary m =
     (let index_size = 4; function_size = 4; dummy_dimensions = [1, 1, 1];
          nv = length (mVertices m)
      in case count_faces (replicate nv 0) (replicate nv (- 1)) 0 (mFaces m) of
           Inl e \<Rightarrow> Inl e
         | Inr (counts, first) \<Rightarrow>
             (case write_faces (mVertices m) (mFields m) first counts 0 (mFaces m) of
                Inl e \<Rightarrow> Inl e
              | Inr toks \<Rightarrow> Inr (Header index_size function_size dummy_dimensions # toks)))"

text \<open>
  The number of corner slots of the faces that hold vertex \<open>v\<close>: what the first pass counts.
  For faces with three distinct corners it is the number of faces incident to \<open>v\<close>.
\<close>

definition incidence :: "nat \<Rightarrow> face list \<Rightarrow> nat" where
  "incidence v fs = count_list (concat (map corners fs)) v"

fun is_edge_token :: "token \<Rightarrow> bool" where
  "is_edge_token (TokE a b) = True"
| "is_edge_token t = False"

definition num_edges :: "token list \<Rightarrow> nat" where
  "num_edges ts = length (filter is_edge_token ts)"

definition faces_in_range :: "nat \<Rightarrow> face list \<Rightarrow> bool" where
  "faces_in_range nv fs = list_all (\<lambda>f. list_all (\<lambda>v. v < nv) (corners f)) fs"

definition flds_in_range :: "nat \<Rightarrow> (string \<times> real option list) list \<Rightarrow> bool" where
  "flds_in_range nv flds = list_all (\<lambda>(name, data). nv \<le> length data) flds"

text \<open>
  How often an 8-bit counter that starts at \<open>c\<close> reads zero right after one of \<open>n\<close>
  successive decrements.
\<close>

fun closes :: "8 word \<Rightarrow> nat \<Rightarrow> nat" where
  "closes c 0 = 0"
| "closes c (Suc n) = (if c - 1 = 0 then 1 else 0) + closes (c - 1) n"

text \<open>Two triangles sharing the edge 0-2, and 512 copies of one triangle.\<close>

definition two_triangles :: trimesh where
  "two_triangles = plain_mesh 3 [(0, 0, 0), (1, 0, 0), (1, 1, 0), (0, 1, 0)] [(0, 1, 2), (0, 2, 3)]"

definition stacked_triangles :: trimesh where
  "stacked_triangles = plain_mesh 3 [(0, 0, 0), (1, 0, 0), (0, 1, 0)] (replicate 512 (0, 1, 2))"

section \<open>Connectivity: need\_adjacentfaces, need\_across\_edge and need\_boundary\<close>

text \<open>
  \<^verbatim>\<open>need_adjacentfaces\<close>. The first pass counts the incidences of every vertex (the counts
  only size a \<^verbatim>\<open>reserve\<close>); the second pass appends face \<open>i\<close> to the list of each of its
  three corners. An index that is not a vertex is an out-of-range access in either pass.
\<close>

fun count_adjacent :: "nat list \<Rightarrow> face list \<Rightarrow> error + nat list" where
  "count_adjacent num [] = Inr num"
| "count_adjacent num ((f0, f1, f2) # fs) =
     (if f0 < length num \<and> f1 < length num \<and> f2 < length num
      then (let num = num[f0 := num ! f0 + 1];
                num = num[f1 := num ! f1 + 1];
                num = num[f2 := num ! f2 + 1]
            in count_adjacent num fs)
      else Inl OutOfRange)"

fun adj_push :: "nat list list \<Rightarrow> nat \<Rightarrow> nat list \<Rightarrow> error + nat list list" where
  "adj_push adj i [] = Inr adj"
| "adj_push adj i (v # vs) =
     (if v < length adj then adj_push (adj[v := adj ! v @ [i]]) i vs else Inl OutOfRange)"

fun adj_faces :: "nat list list \<Rightarrow> nat \<Rightarrow> face list \<Rightarrow> error + nat list list" where
  "adj_faces adj i [] = Inr adj"
| "adj_faces adj i (f # fs) =
     (case adj_push adj i (corners f) of
        Inl e \<Rightarrow> Inl e
      | Inr adj' \<Rightarrow> adj_faces adj' (i + 1) fs)"

definition need_adjacentfaces :: "'a trimesh_scheme \<Rightarrow> error + 'a trimesh_scheme" where
  "need_adjacentfaces m =
     (if mVAdjFaces m \<noteq> [] then Inr m
      else (let nv = length (mVertices m)
            in case count_adjacent (replicate nv 0) (mFaces m) of
                 Inl e \<Rightarrow> Inl e
               | Inr numadjacentfaces \<Rightarrow>
                   (case adj_faces (replicate nv []) 0 (mFaces m) of
                      Inl e \<Rightarrow> Inl e
                    | Inr adj \<Rightarrow> Inr (m\<lparr>mVAdjFaces := adj\<rparr>))))"

text \<open>
  \<^verbatim>\<open>need_across_edge\<close>, the loop over \<open>k1\<close>: the first face \<open>other\<close> of \<open>a1\<close> that is
  not \<open>i\<close>, is also in \<open>a2\<close>, and in which \<open>v2\<close> sits two places after the first
  occurrence of \<open>v1\<close>; together with the local edge \<open>ind\<close> of \<open>other\<close>.
\<close>

fun find_across ::
  "face list \<Rightarrow> nat \<Rightarrow> nat \<Rightarrow> nat \<Rightarrow> nat list \<Rightarrow> nat list \<Rightarrow> error + (nat \<times> nat) option" where
  "find_across faces i v1 v2 a2 [] = Inr None"
| "find_across faces i v1 v2 a2 (other # rest) =
     (if other = i then find_across faces i v1 v2 a2 rest
      else if other \<notin> set a2 then find_across faces i v1 v2 a2 rest
      else if length faces \<le> other then Inl OutOfRange
      else (let vidx = (if at3 (faces ! other) 0 = v1 then 0
                        else if at3 (faces ! other) 1 = v1 then 1
                        else if at3 (faces ! other) 2 = v1 then 2 else (- 1 :: int));
                ind = nat ((vidx + 1) mod 3)
            in if at3 (faces ! other) ((ind + 1) mod 3) \<noteq> v2
               then find_across faces i v1 v2 a2 rest
               else Inr (Some (other, ind))))"

text \<open>The body of the loops over \<open>i\<close> and \<open>j\<close>; an entry is \<open>-1\<close> or a face index.\<close>

definition across_step ::
  "face list \<Rightarrow> nat list list \<Rightarrow> offset3 list \<Rightarrow> nat \<Rightarrow> nat \<Rightarrow> error + offset3 list" where
  "across_step faces adj across i j =
     (if length across \<le> i \<or> length faces \<le> i then Inl OutOfRange
      else if at3 (across ! i) j \<noteq> - 1 then Inr across
      else (let v1 = at3 (faces ! i) ((j + 1) mod 3);
                v2 = at3 (faces ! i) ((j + 2) mod 3)
            in if length adj \<le> v1 \<or> length adj \<le> v2 then Inl OutOfRange
               else (case find_across faces i v1 v2 (adj ! v2) (adj ! v1) of
                       Inl e \<Rightarrow> Inl e
                     | Inr None \<Rightarrow> Inr across
                     | Inr (Some (other, ind)) \<Rightarrow>
                         (let across = across[i := upd3 (across ! i) j (int other)]
                          in if length across \<le> other then Inl OutOfRange
                             else Inr (across[other := upd3 (across ! other) ind (int i)])))))"

fun across_loop ::
  "face list \<Rightarrow> nat list list \<Rightarrow> offset3 list \<Rightarrow> (nat \<times> nat) list \<Rightarrow> error + offset3 list" where
  "across_loop faces adj across [] = Inr across"
| "across_loop faces adj across ((i, j) # rest) =
     (case across_step faces adj across i j of
        Inl e \<Rightarrow> Inl e
      | Inr across' \<Rightarrow> across_loop faces adj across' rest)"

text \<open>The pairs \<open>(i, j)\<close> in the order of the nested loops over \<open>i < nf\<close> and \<open>j < 3\<close>.\<close>

definition face_edges :: "nat \<Rightarrow> (nat \<times> nat) list" where
  "face_edges nf = concat (map (\<lambda>i. [(i, 0), (i, 1), (i, 2)]) [0..<nf])"

definition need_across_edge :: "'a trimesh_scheme \<Rightarrow> error + 'a trimesh_scheme" where
  "need_across_edge m =
     (if mFAcrossEdge m \<noteq> [] then Inr m
      else (case need_adjacentfaces m of
              Inl e \<Rightarrow> Inl e
            | Inr m1 \<Rightarrow>
                (if mVAdjFaces m1 = [] then Inr m1
                 else (let nf = length (mFaces m1)
                       in case across_loop (mFaces m1) (mVAdjFaces m1)
                                 (replicate nf (- 1, - 1, - 1)) (face_edges nf) of
                            Inl e \<Rightarrow> Inl e
                          | Inr across \<Rightarrow> Inr (m1\<lparr>mFAcrossEdge := across\<rparr>)))))"

text \<open>
  \<^verbatim>\<open>need_boundary\<close>, the collection of the edges whose across-edge entry is \<open>-1\<close>.
\<close>

fun collect_boundary ::
  "face list \<Rightarrow> offset3 list \<Rightarrow> edge list \<Rightarrow> (nat \<times> nat) list \<Rightarrow> error + edge list" where
  "collect_boundary faces across es [] = Inr es"
| "collect_boundary faces across es ((i, j) # rest) =
     (if length across \<le> i \<or> length faces \<le> i then Inl OutOfRange
      else if at3 (across ! i) j = - 1
      then collect_boundary faces across
             (es @ [(at3 (faces ! i) ((j + 1) mod 3), at3 (faces ! i) ((j + 2) mod 3))]) rest
      else collect_boundary faces across es rest)"

text \<open>The inner loop over \<open>jidx\<close>: the first later edge that starts where edge \<open>bidx\<close> ends.\<close>

function find_next :: "edge list \<Rightarrow> nat \<Rightarrow> nat \<Rightarrow> nat option" where
  "find_next es bidx jidx =
     (if jidx < length es
      then (if fst (es ! jidx) = snd (es ! bidx) then Some jidx
            else find_next es bidx (jidx + 1))
      else None)"
  by pat_completeness auto
termination
  by (relation "measure (\<lambda>(es, bidx, jidx). length es - jidx)") auto

declare find_next.simps [simp del]

text \<open>
  The loop over \<open>bidx\<close>. Its bound is \<^verbatim>\<open>nbedges-1\<close> computed in \<^verbatim>\<open>size_t\<close>, passed
  in as \<open>bound\<close>. \<^verbatim>\<open>bedges[bidx]\<close>, \<^verbatim>\<open>bedges[bidx+1]\<close> and \<^verbatim>\<open>bedges[0]\<close> are unchecked
  vector accesses.
\<close>

function reorder_edges :: "nat \<Rightarrow> nat \<Rightarrow> edge list \<Rightarrow> error + edge list" where
  "reorder_edges bound bidx es =
     (if bidx < bound then
        (case find_next es bidx (bidx + 1) of
           Some jidx \<Rightarrow>
             (if bidx + 1 < length es \<and> jidx < length es
              then reorder_edges bound (bidx + 1)
                     (es[bidx + 1 := es ! jidx, jidx := es ! (bidx + 1)])
              else Inl OutOfRange)
         | None \<Rightarrow>
             (if length es \<le> bidx \<or> es = [] then Inl OutOfRange
              else if snd (es ! bidx) = fst (es ! 0)
              then reorder_edges bound (bidx + 1) es
              else Inr es))
      else Inr es)"
  by pat_completeness auto
termination
  by (relation "measure (\<lambda>(bound, bidx, es). bound - bidx)") auto

declare reorder_edges.simps [simp del]

text \<open>\<^verbatim>\<open>nbedges-1\<close> in the 64-bit unsigned \<^verbatim>\<open>size_t\<close>.\<close>

definition size_t_pred :: "nat \<Rightarrow> nat" where
  "size_t_pred n = (if n = 0 then 2 ^ 64 - 1 else n - 1)"

text \<open>
  The result of \<^verbatim>\<open>need_boundary\<close> is the mesh it leaves; the vector it returns is the
  flattened \<open>bedges\<close> of that mesh.
\<close>

definition need_boundary :: "'a trimesh_scheme \<Rightarrow> error + 'a trimesh_scheme" where
  "need_boundary m =
     (if bedges m = [] then
        (case need_across_edge m of
           Inl e \<Rightarrow> Inl e
         | Inr m1 \<Rightarrow>
             (let nf = length (mFaces m1)
              in case collect_boundary (mFaces m1) (mFAcrossEdge m1) [] (face_edges nf) of
                   Inl e \<Rightarrow> Inl e
                 | Inr bs \<Rightarrow>
                     (let nbedges = length bs
                      in case reorder_edges (size_t_pred nbedges) 0 bs of
                           Inl e \<Rightarrow> Inl e
                         | Inr bs' \<Rightarrow> Inr (m1\<lparr>bedges := bs'\<rparr>))))
      else Inr m)"

text \<open>The across-edge table is symmetric: an entry of face \<open>i\<close> that names face \<open>k\<close> is
  answered by an entry of face \<open>k\<close> that names \<open>i\<close>.\<close>

definition across_symmetric :: "offset3 list \<Rightarrow> bool" where
  "across_symmetric across =
     (\<forall>i < length across. \<forall>j < 3.
        at3 (across ! i) j \<noteq> - 1 \<longrightarrow>
          (\<exists>k < length across. at3 (across ! i) j = int k
             \<and> (\<exists>j' < 3. at3 (across ! k) j' = int i)))"

text \<open>A closed tetrahedron, a square of two triangles, and three triangles on one edge.\<close>

definition tetrahedron :: trimesh where
  "tetrahedron = plain_mesh 3 [(0, 0, 0), (1, 0, 0), (0, 1, 0), (0, 0, 1)]
                   [(0, 2, 1), (0, 1, 3), (0, 3, 2), (1, 2, 3)]"

definition three_on_an_edge :: trimesh where
  "three_on_an_edge = plain_mesh 3 [(0, 0, 0), (1, 0, 0), (0, 1, 0), (0, 0, 1), (0, 0, - 1)]
                        [(0, 1, 2), (1, 0, 3), (1, 0, 4)]"

text \<open>
  The directed edge of face \<open>i\<close> opposite its corner \<open>j\<close>, as both \<^verbatim>\<open>need_across_edge\<close>
  and \<^verbatim>\<open>need_boundary\<close> read it: from corner \<open>(j+1)%3\<close> to corner \<open>(j+2)%3\<close>.
\<close>

definition dedge :: "face list \<Rightarrow> nat \<Rightarrow> nat \<Rightarrow> nat \<times> nat" where
  "dedge faces i j = (at3 (faces ! i) ((j + 1) mod 3), at3 (faces ! i) ((j + 2) mod 3))"

text \<open>
  An oriented edge-manifold face list: no directed edge belongs to two face slots. (Three
  faces on one edge, or two faces that run along a common edge in the same direction, are
  excluded; so is a face with three equal corners.)
\<close>

definition edge_manifold :: "face list \<Rightarrow> bool" where
  "edge_manifold faces = distinct (map (\<lambda>(i, j). dedge faces i j) (face_edges (length faces)))"

text \<open>Every face listed for a vertex exists and has the vertex as a corner.\<close>

definition adj_ok :: "face list \<Rightarrow> nat list list \<Rightarrow> bool" where
  "adj_ok faces adj =
     (\<forall>v < length adj. \<forall>f \<in> set (adj ! v). f < length faces \<and> v \<in> set (corners (faces ! f)))"

text \<open>
  Every entry of the table that is not \<open>-1\<close> names a face whose answering entry sits on the
  reversed directed edge.
\<close>

definition across_paired :: "face list \<Rightarrow> offset3 list \<Rightarrow> bool" where
  "across_paired faces across =
     (length across = length faces \<and>
      (\<forall>i < length faces. \<forall>j < 3.
         at3 (across ! i) j \<noteq> - 1 \<longrightarrow>
           (\<exists>k < length faces. \<exists>j' < 3.
              at3 (across ! i) j = int k
              \<and> dedge faces k j' = prod.swap (dedge faces i j)
              \<and> at3 (across ! k) j' = int i)))"

section \<open>TriMeshPeriodic::delaunay: unwrapping the periodic triangulation\<close>

text \<open>
  The periodic Delaunay triangulation is computed by an external library. What the
  post-processing reads of it is modelled as a record: the finite faces of the 9-sheeted
  covering as triples of vertex handles, and for a vertex handle its \<^verbatim>\<open>info()\<close> (the index
  of the input vertex) and the offset of its periodic point. A vertex handle is a number.
\<close>

record triangulation =
  dt_faces :: "(nat \<times> nat \<times> nat) list"
  dt_info :: "nat \<Rightarrow> nat"
  dt_offset :: "nat \<Rightarrow> int \<times> int"

text \<open>\<^verbatim>\<open>duplicateHandles[vh]\<close> of a \<^verbatim>\<open>std::map\<close>: a missing key is inserted with value 0.\<close>

definition map_index :: "(nat \<rightharpoonup> nat) \<Rightarrow> nat \<Rightarrow> nat \<times> (nat \<rightharpoonup> nat)" where
  "map_index dh vh = (case dh vh of Some d \<Rightarrow> (d, dh) | None \<Rightarrow> (0, dh(vh \<mapsto> 0)))"

text \<open>
  The loop over \<open>vid\<close> that unwraps one periodic face. The state is the duplicate list, the
  map from handles to new vertex indices, and the face being rewritten.
\<close>

fun unwrap_corners ::
  "triangulation \<Rightarrow> nat \<Rightarrow> nat \<times> nat \<times> nat \<Rightarrow> nat list
   \<Rightarrow> dupMap list \<times> (nat \<rightharpoonup> nat) \<times> face \<Rightarrow> dupMap list \<times> (nat \<rightharpoonup> nat) \<times> face"
where
  "unwrap_corners dt nOrigVerts fverts [] st = st"
| "unwrap_corners dt nOrigVerts fverts (vid # vids) (dups, dh, face) =
     (let vh = at3 fverts vid; off = dt_offset dt vh
      in if fst off = 0 \<and> snd off = 0
         then unwrap_corners dt nOrigVerts fverts vids (dups, dh, face)
         else
           (let origId = dt_info dt vh;
                (dups, dh) =
                  (if dh vh = None
                   then (let off1 = (if fst off = 2 then - 1 else fst off);
                             off2 = (if snd off = 2 then - 1 else snd off);
                             dups = dups @ [(origId, off1, off2)]
                         in (dups, dh(vh \<mapsto> length dups + nOrigVerts - 1)))
                   else (dups, dh));
                (d, dh) = map_index dh vh
            in unwrap_corners dt nOrigVerts fverts vids (dups, dh, upd3 face vid d)))"

text \<open>The loop over the finite faces of the triangulation.\<close>

fun periodic_faces ::
  "triangulation \<Rightarrow> nat \<Rightarrow> (nat \<times> nat \<times> nat) list
   \<Rightarrow> trimesh_periodic \<times> (nat \<rightharpoonup> nat) \<Rightarrow> trimesh_periodic \<times> (nat \<rightharpoonup> nat)"
where
  "periodic_faces dt nOrigVerts [] st = st"
| "periodic_faces dt nOrigVerts (fverts # rest) (m, dh) =
     (let num_orig_verts = length (filter (\<lambda>vh. dt_offset dt vh = (0, 0)) (corners fverts))
      in if num_orig_verts = 0 then periodic_faces dt nOrigVerts rest (m, dh)
         else
           (let face = (dt_info dt (at3 fverts 0), dt_info dt (at3 fverts 1),
                        dt_info dt (at3 fverts 2))
            in if num_orig_verts = 3
               then periodic_faces dt nOrigVerts rest (m\<lparr>mFaces := mFaces m @ [face]\<rparr>, dh)
               else
                 (let m = m\<lparr>mPeriodicFaces := mPeriodicFaces m @ [face]\<rparr>;
                      (dups, dh, face) =
                        unwrap_corners dt nOrigVerts fverts [0, 1, 2]
                          (mDuplicateVerts_OrigIds m, dh, face)
                  in periodic_faces dt nOrigVerts rest
                       (m\<lparr>mDuplicateVerts_OrigIds := dups,
                          mTrimmedFaces := mTrimmedFaces m @ [face]\<rparr>, dh))))"

text \<open>\<^verbatim>\<open>create_duplicate_vertices\<close>: the position of one duplicate, and the loop.\<close>

definition duplicate_vertex ::
  "float_ops \<Rightarrow> vertex list \<Rightarrow> vertex \<Rightarrow> dupMap \<Rightarrow> error + vertex" where
  "duplicate_vertex ops verts boxw dm =
     (case dm of (origId, off1, off2) \<Rightarrow>
        if origId < length verts
        then (let dv = verts ! origId;
                  dv = upd3 dv 0 (fl_add ops (at3 dv 0)
                         (if off1 = 0 then 0 else fl_mul ops (real_of_int off1) (at3 boxw 0)));
                  dv = upd3 dv 1 (fl_add ops (at3 dv 1)
                         (if off2 = 0 then 0 else fl_mul ops (real_of_int off2) (at3 boxw 1)))
              in Inr dv)
        else Inl OutOfRange)"

fun duplicate_all ::
  "float_ops \<Rightarrow> vertex list \<Rightarrow> vertex \<Rightarrow> dupMap list \<Rightarrow> error + vertex list" where
  "duplicate_all ops verts boxw [] = Inr []"
| "duplicate_all ops verts boxw (dm # dms) =
     (case duplicate_vertex ops verts boxw dm of
        Inl e \<Rightarrow> Inl e
      | Inr dv \<Rightarrow> (case duplicate_all ops verts boxw dms of
                     Inl e \<Rightarrow> Inl e
                   | Inr dvs \<Rightarrow> Inr (dv # dvs)))"

definition create_duplicate_vertices ::
  "float_ops \<Rightarrow> trimesh_periodic \<Rightarrow> error + trimesh_periodic" where
  "create_duplicate_vertices ops m =
     (let norig = length (mVertices m); ndups = length (mDuplicateVerts_OrigIds m)
      in if norig = 0 \<or> ndups = 0 \<or> \<not> bbox_valid m then Inr m
         else (let boxw = vsub ops (mBox1 m) (mBox0 m)
               in case duplicate_all ops (mVertices m) boxw (mDuplicateVerts_OrigIds m) of
                    Inl e \<Rightarrow> Inl e
                  | Inr dvs \<Rightarrow> Inr (m\<lparr>mDuplicateVerts := dvs\<rparr>)))"

text \<open>
  The part of \<^verbatim>\<open>TriMeshPeriodic::delaunay\<close> after the triangulation has been computed and
  converted to the 9-sheeted covering (lines 199 to 271): the result is the mesh it leaves
  and the local map \<^verbatim>\<open>duplicateHandles\<close> as it stands at the end of the loop.
\<close>

definition delaunay_unwrap ::
  "float_ops \<Rightarrow> triangulation \<Rightarrow> trimesh_periodic
   \<Rightarrow> error + (trimesh_periodic \<times> (nat \<rightharpoonup> nat))" where
  "delaunay_unwrap ops dt m =
     (let m = m\<lparr>mFaces := []\<rparr>;
          nOrigVerts = length (mVertices m);
          (m, duplicateHandles) = periodic_faces dt nOrigVerts (dt_faces dt) (m, Map.empty)
      in case create_duplicate_vertices ops m of
           Inl e \<Rightarrow> Inl e
         | Inr m' \<Rightarrow> Inr (m', duplicateHandles))"

text \<open>The key of a vertex handle: the original vertex and the normalised offset pair.\<close>

definition dup_key :: "triangulation \<Rightarrow> nat \<Rightarrow> dupMap" where
  "dup_key dt vh = (dt_info dt vh,
                    (if fst (dt_offset dt vh) = 2 then - 1 else fst (dt_offset dt vh)),
                    (if snd (dt_offset dt vh) = 2 then - 1 else snd (dt_offset dt vh)))"

text \<open>The vertex handles of the faces of the triangulation.\<close>

definition dt_handles :: "triangulation \<Rightarrow> nat set" where
  "dt_handles dt = (\<Union>f \<in> set (dt_faces dt). set (corners f))"

text \<open>
  What the post-processing relies on from the external triangulation: every \<^verbatim>\<open>info()\<close> is
  the index of an input vertex, every offset component is 0, 1 or 2, and the covering has
  one vertex handle per pair of input vertex and offset.
\<close>

definition covering_ok :: "triangulation \<Rightarrow> nat \<Rightarrow> bool" where
  "covering_ok dt nOrigVerts =
     ((\<forall>vh \<in> dt_handles dt. dt_info dt vh < nOrigVerts
          \<and> fst (dt_offset dt vh) \<in> {0, 1, 2} \<and> snd (dt_offset dt vh) \<in> {0, 1, 2})
      \<and> inj_on (\<lambda>vh. (dt_info dt vh, dt_offset dt vh)) (dt_handles dt))"

text \<open>
  The unit square of four vertices in the box \<open>[0,1) \<times> [0,1)\<close> and a covering of it in which
  handle \<open>10 \<sqdot> s + v\<close> is the copy of vertex \<open>v\<close> in sheet \<open>s\<close>: one face inside the domain,
  one face outside, and two faces across the right edge that share the copy of vertex 0.
\<close>

definition square_mesh :: trimesh_periodic where
  "square_mesh = (periodic_mesh 2 [(0, 0, 0), (1/2, 0, 0), (1/2, 1/2, 0), (0, 1/2, 0)])
                   \<lparr>mBox0 := (0, 0, 0), mBox1 := (1, 1, 0), bbox_valid := True\<rparr>"

definition square_covering :: triangulation where
  "square_covering =
     \<lparr> dt_faces = [(0, 1, 2), (1, 10, 2), (2, 10, 13), (10, 11, 12)],
       dt_info = (\<lambda>vh. vh mod 10),
       dt_offset = (\<lambda>vh. if vh < 10 then (0, 0) else (1, 0)) \<rparr>"

text \<open>The square mesh as a first reconstruction over \<open>square_covering\<close> leaves it.\<close>

definition square_mesh_unwrapped :: trimesh_periodic where
  "square_mesh_unwrapped =
     square_mesh \<lparr> mFaces := [(0, 1, 2)],
                   mPeriodicFaces := [(1, 0, 2), (2, 0, 3)],
                   mTrimmedFaces := [(1, 4, 2), (2, 4, 5)],
                   mDuplicateVerts_OrigIds := [(0, 1, 0), (3, 1, 0)],
                   mDuplicateVerts := [(1, 0, 0), (1, 1/2, 0)] \<rparr>"

text \<open>
  The bookkeeping of the unwrapping loop: the duplicate list has no repeated key, the map
  sends a handle to the original-vertex count plus the position of its key in the list, and
  every key in the list is the key of a handle in the map.
\<close>

definition dup_inv :: "triangulation \<Rightarrow> nat \<Rightarrow> dupMap list \<Rightarrow> (nat \<rightharpoonup> nat) \<Rightarrow> bool" where
  "dup_inv dt n dups dh =
     (distinct dups
      \<and> (\<forall>vh d. dh vh = Some d \<longrightarrow>
            vh \<in> dt_handles dt \<and> n \<le> d \<and> d - n < length dups \<and> dups ! (d - n) = dup_key dt vh)
      \<and> (\<forall>k \<in> set dups. \<exists>vh. dh vh \<noteq> None \<and> dup_key dt vh = k))"

definition face_below :: "nat \<Rightarrow> face \<Rightarrow> bool" where
  "face_below n f = list_all (\<lambda>v. v < n) (corners f)"

section \<open>Theorems\<close>

subsection \<open>set\_dimensionality\<close>

text \<open>
  C9. For every argument value, \<open>set_dimensionality\<close> stores the argument in \<open>mDim\<close>
  before it validates it: the object the call leaves behind always holds the argument and is
  otherwise unchanged, and the call throws the invalid-argument condition exactly for a value
  other than 2 and 3. The failure is therefore not atomic.
\<close>

theorem set_dimensionality_assigns_before_check:
  "snd (set_dimensionality m d) = m\<lparr>mDim := d\<rparr>
   \<and> mDim (snd (set_dimensionality m d)) = d
   \<and> fst (set_dimensionality m d) = (if d = 2 \<or> d = 3 then Inr True else Inl InvalidArgument)"
  by (simp add: set_dimensionality_def Let_def)

subsection \<open>set\_bbox\<close>

text \<open>
  C1 (as stated) fails for a 3D mesh: two values are refused there, and three values are
  accepted although 3 is neither 2 nor \<open>2 \<sqdot> 3\<close>.
\<close>

theorem set_bbox_two_values_in_3d_counterexample:
  "set_bbox (periodic_mesh 3 []) [1, 2] 2 = Inl InvalidArgument
   \<and> set_bbox (periodic_mesh 3 []) [1, 2, 3] 3
       = Inr ((periodic_mesh 3 []) \<lparr>mBox0 := (0, 0, 0), mBox1 := (1, 2, 3), bbox_valid := True\<rparr>)"
  by (simp add: set_bbox_def periodic_mesh_def)

text \<open>
  C1 (amended). For a mesh of dimensionality \<open>d\<close> in \<open>{2, 3}\<close> and an argument count \<open>n\<close>
  (the array holding at least \<open>n\<close> values), \<open>set_bbox\<close> succeeds and marks the box valid
  exactly when \<open>n = d\<close> or \<open>n = 2 \<sqdot> d\<close>, and it throws the invalid-argument condition
  exactly for every other count. The \<open>n = d\<close> form places the origin of the box at zero
  and reads the maximum corner; the \<open>n = 2 \<sqdot> d\<close> form reads the minimum corner and then
  the maximum corner. The third coordinate of a 2D box is 0.
\<close>

theorem set_bbox_accepts_dim_or_twice_dim:
  assumes dims: "mDim m = 2 \<or> mDim m = 3"
    and len: "n \<le> int (length vs)"
  shows "((\<exists>m'. set_bbox m vs n = Inr m' \<and> bbox_valid m')
            = (n = uint (mDim m) \<or> n = 2 * uint (mDim m)))
         \<and> ((set_bbox m vs n = Inl InvalidArgument)
            = (n \<noteq> uint (mDim m) \<and> n \<noteq> 2 * uint (mDim m)))
         \<and> (n = uint (mDim m) \<longrightarrow>
              set_bbox m vs n
                = Inr (m\<lparr>mBox0 := (0, 0, 0),
                         mBox1 := (vs ! 0, vs ! 1, if mDim m = 2 then 0 else vs ! 2),
                         bbox_valid := True\<rparr>))
         \<and> (n = 2 * uint (mDim m) \<longrightarrow>
              set_bbox m vs n
                = Inr (m\<lparr>mBox0 := (vs ! 0, vs ! 1, if mDim m = 2 then 0 else vs ! 2),
                         mBox1 := (if mDim m = 2 then (vs ! 2, vs ! 3, 0)
                                   else (vs ! 3, vs ! 4, vs ! 5)),
                         bbox_valid := True\<rparr>))"
  using dims
proof
  assume d: "mDim m = 2"
  show ?thesis using len by (auto simp: set_bbox_def d)
next
  assume d: "mDim m = 3"
  show ?thesis using len by (auto simp: set_bbox_def d)
qed

theorem set_bbox_accepts_witness:
  "(\<exists>m'. set_bbox (periodic_mesh 3 []) [1, 2, 3] 3 = Inr m' \<and> bbox_valid m'
          \<and> mBox0 m' = (0, 0, 0) \<and> mBox1 m' = (1, 2, 3))
   \<and> (\<exists>m'. set_bbox (periodic_mesh 2 []) [1, 2, 3, 4] 4 = Inr m' \<and> bbox_valid m'
          \<and> mBox0 m' = (1, 2, 0) \<and> mBox1 m' = (3, 4, 0))
   \<and> set_bbox (periodic_mesh 2 []) [1, 2, 3] 3 = Inl InvalidArgument
   \<and> set_bbox (periodic_mesh 3 []) [1, 2, 3, 4] 4 = Inl InvalidArgument"
  using set_bbox_accepts_dim_or_twice_dim [of "periodic_mesh 3 []" 3 "[1, 2, 3]"]
    set_bbox_accepts_dim_or_twice_dim [of "periodic_mesh 2 []" 4 "[1, 2, 3, 4]"]
    set_bbox_accepts_dim_or_twice_dim [of "periodic_mesh 2 []" 3 "[1, 2, 3]"]
    set_bbox_accepts_dim_or_twice_dim [of "periodic_mesh 3 []" 4 "[1, 2, 3, 4]"]
  by (simp add: periodic_mesh_def set_bbox_def)

subsection \<open>wrap\_vertices\<close>

lemma upt_small: "[0..<0] = []" "[0..<1] = [0]" "[0..<2] = [0, 1]" "[0..<3] = [0, 1, 2]"
  by (simp_all add: upt_rec)

lemma all_less_3: "(\<forall>d<3. P d) = (P (0::nat) \<and> P 1 \<and> P 2)"
proof -
  have "\<And>d::nat. d < 3 \<longleftrightarrow> d = 0 \<or> d = 1 \<or> d = 2" by linarith
  then show ?thesis by auto
qed

lemma wrap_dims_error: "wrap_dims ops b0 b1 w ds v = Inl e \<Longrightarrow> e = OutOfRange"
  by (induction ds arbitrary: v) (auto split: if_splits)

lemma wrap_all_error: "wrap_all ops b0 b1 w k vs = Inl e \<Longrightarrow> e = OutOfRange"
  by (induction vs arbitrary: e) (auto split: sum.splits dest: wrap_dims_error)

lemma wrap_dims_upto:
  assumes "k \<le> 3"
  shows "\<exists>v'. wrap_dims ops b0 b1 w [0..<k] v = Inr v'
          \<and> (\<forall>d<3. at3 v' d
                = (if d < k then wrap_coord ops (at3 b0 d) (at3 b1 d) (at3 w d) (at3 v d)
                   else at3 v d))"
proof -
  obtain x y z where v: "v = (x, y, z)" by (cases v) auto
  from assms consider "k = 0" | "k = 1" | "k = 2" | "k = 3" by linarith
  then show ?thesis
    by cases (simp_all add: upt_small v all_less_3)
qed

lemma wrap_all_upto:
  assumes "k \<le> 3"
  shows "\<exists>vs'. wrap_all ops b0 b1 w k vs = Inr vs' \<and> length vs' = length vs
          \<and> (\<forall>i<length vs. \<forall>d<3. at3 (vs' ! i) d
                 = (if d < k
                    then wrap_coord ops (at3 b0 d) (at3 b1 d) (at3 w d) (at3 (vs ! i) d)
                    else at3 (vs ! i) d))"
proof (induction vs)
  case Nil
  show ?case by simp
next
  case (Cons v vs)
  from wrap_dims_upto [OF assms, of ops b0 b1 w v] obtain v' where
    v': "wrap_dims ops b0 b1 w [0..<k] v = Inr v'"
    "\<forall>d<3. at3 v' d = (if d < k then wrap_coord ops (at3 b0 d) (at3 b1 d) (at3 w d) (at3 v d)
                                 else at3 v d)" by blast
  from Cons.IH obtain vs' where
    vs': "wrap_all ops b0 b1 w k vs = Inr vs'" "length vs' = length vs"
     "\<forall>i<length vs. \<forall>d<3. at3 (vs' ! i) d
                 = (if d < k
                    then wrap_coord ops (at3 b0 d) (at3 b1 d) (at3 w d) (at3 (vs ! i) d)
                    else at3 (vs ! i) d)" by blast
  have "wrap_all ops b0 b1 w k (v # vs) = Inr (v' # vs')" using v'(1) vs'(1) by simp
  moreover have "length (v' # vs') = length (v # vs)" using vs'(2) by simp
  moreover have "\<forall>i<length (v # vs). \<forall>d<3. at3 ((v' # vs') ! i) d
                 = (if d < k
                    then wrap_coord ops (at3 b0 d) (at3 b1 d) (at3 w d) (at3 ((v # vs) ! i) d)
                    else at3 ((v # vs) ! i) d)"
  proof (intro allI impI)
    fix i d assume i: "i < length (v # vs)" and d: "d < (3::nat)"
    show "at3 ((v' # vs') ! i) d
                 = (if d < k
                    then wrap_coord ops (at3 b0 d) (at3 b1 d) (at3 w d) (at3 ((v # vs) ! i) d)
                    else at3 ((v # vs) ! i) d)"
    proof (cases i)
      case 0
      then show ?thesis using v'(2) d by simp
    next
      case (Suc j)
      then show ?thesis using vs'(3) d i by simp
    qed
  qed
  ultimately show ?case by blast
qed

lemma at3_vsub: "at3 (vsub ops a b) d = fl_sub ops (at3 a d) (at3 b d)"
  by (cases a, cases b) simp

lemma wrap_coord_below:
  "x < b0 \<Longrightarrow> wrap_coord ops b0 b1 w x
     = (if b1 \<le> fl_add ops x w then fl_sub ops (fl_add ops x w) w else fl_add ops x w)"
  by (simp add: wrap_coord_def)

lemma wrap_coord_above: "\<not> x < b0 \<Longrightarrow> b1 \<le> x \<Longrightarrow> wrap_coord ops b0 b1 w x = fl_sub ops x w"
  by (simp add: wrap_coord_def)

lemma wrap_coord_inside: "b0 \<le> x \<Longrightarrow> x < b1 \<Longrightarrow> wrap_coord ops b0 b1 w x = x"
  by (simp add: wrap_coord_def)

lemma wrap_coord_range:
  assumes "w = b1 - b0 \<and> (x < b0 \<longrightarrow> fl_add ops x w = x + w) \<and> (b1 \<le> x \<longrightarrow> fl_sub ops x w = x - w)
        \<and> b0 - w \<le> x \<and> x < b1 + w"
  shows "b0 \<le> wrap_coord ops b0 b1 w x \<and> wrap_coord ops b0 b1 w x < b1"
  using assms by (auto simp: wrap_coord_def Let_def)

text \<open>
  C8 (as stated) fails on two inputs, on both of which every sum and difference is exact in
  float arithmetic.
  \<^item> \<open>set_dimensionality 5\<close> throws and leaves the dimensionality 5 behind; a later
    \<open>wrap_vertices 4\<close> passes all three tests (4 is not 0, does not exceed 5, the box is
    valid) and then reads component 3 of a three-component vertex: it neither throws nor
    wraps.
  \<^item> \<open>set_bbox\<close> with the four values 1, 1, 0, 0 gives a valid box whose minimum 1 is above
    its maximum 0. The coordinate \<open>1/2\<close> is at or above the maximum, and the extent \<open>-1\<close> is
    added to it, not subtracted: it ends at \<open>-1/2\<close>, not at \<open>3/2\<close>.
\<close>

theorem wrap_vertices_fourth_axis_and_inverted_box_counterexample:
  "fst (set_dimensionality boxed_mesh 5) = Inl InvalidArgument
   \<and> mDim (snd (set_dimensionality boxed_mesh 5)) = 5
   \<and> bbox_valid (snd (set_dimensionality boxed_mesh 5))
   \<and> wrap_vertices exact_ops (snd (set_dimensionality boxed_mesh 5)) 4 = Inl OutOfRange
   \<and> set_bbox (periodic_mesh 2 [(1/2, 1/2, 0)]) [1, 1, 0, 0] 4 = Inr inverted_mesh
   \<and> wrap_vertices exact_ops inverted_mesh 2
       = Inr (inverted_mesh\<lparr>mVertices := [(- 1/2, - 1/2, 0)]\<rparr>)"
  by (simp add: set_dimensionality_def boxed_mesh_def inverted_mesh_def periodic_mesh_def
      set_bbox_def wrap_vertices_def wrap_coord_def exact_ops_def upt_rec)

text \<open>
  C8 (amended). \<open>wrap_vertices\<close> throws (a logic error) exactly when the requested dimension
  is 0, exceeds the mesh's dimensionality, or the box is not valid. Otherwise, when the
  requested dimension is at most 3 (the number of components of a vertex), the call
  returns, every vertex keeps its place in the list, every axis at or above the requested
  dimension is unchanged, and on every axis below it, with the extent \<open>w\<close> the float
  difference of the maximum and the minimum of the box:
  \<^item> a coordinate below the minimum has the extent added (a float sum), and the sum has
    the extent subtracted again if it is at or above the maximum;
  \<^item> a coordinate not below the minimum and at or above the maximum has the extent
    subtracted (a float difference);
  \<^item> a coordinate in \<open>[min, max)\<close> is unchanged;
  \<^item> where the extent and the sum or difference taken are exact, a coordinate that starts
    within one extent of the box ends in \<open>[min, max)\<close>.
  This holds for every rounding of the float operations.
\<close>

theorem wrap_vertices_spec:
  "((wrap_vertices ops m ndim = Inl LogicError) = (ndim = 0 \<or> mDim m < ndim \<or> \<not> bbox_valid m))
   \<and> (ndim \<noteq> 0 \<and> ndim \<le> mDim m \<and> bbox_valid m \<and> ndim \<le> 3 \<longrightarrow>
        (\<exists>vs'. wrap_vertices ops m ndim = Inr (m\<lparr>mVertices := vs'\<rparr>)
           \<and> length vs' = length (mVertices m)
           \<and> (\<forall>i<length (mVertices m). \<forall>d<3.
                 at3 (vs' ! i) d
                   = (if d < unat ndim
                      then wrap_coord ops (at3 (mBox0 m) d) (at3 (mBox1 m) d)
                             (fl_sub ops (at3 (mBox1 m) d) (at3 (mBox0 m) d))
                             (at3 (mVertices m ! i) d)
                      else at3 (mVertices m ! i) d))))
   \<and> (x < b0 \<longrightarrow>
        wrap_coord ops b0 b1 w x
          = (if b1 \<le> fl_add ops x w then fl_sub ops (fl_add ops x w) w else fl_add ops x w))
   \<and> (\<not> x < b0 \<and> b1 \<le> x \<longrightarrow> wrap_coord ops b0 b1 w x = fl_sub ops x w)
   \<and> (b0 \<le> x \<and> x < b1 \<longrightarrow> wrap_coord ops b0 b1 w x = x)
   \<and> (w = b1 - b0 \<and> (x < b0 \<longrightarrow> fl_add ops x w = x + w) \<and> (b1 \<le> x \<longrightarrow> fl_sub ops x w = x - w)
        \<and> b0 - w \<le> x \<and> x < b1 + w \<longrightarrow>
        b0 \<le> wrap_coord ops b0 b1 w x \<and> wrap_coord ops b0 b1 w x < b1)"
proof (intro conjI impI)
  show "(wrap_vertices ops m ndim = Inl LogicError)
          = (ndim = 0 \<or> mDim m < ndim \<or> \<not> bbox_valid m)"
    by (auto simp: wrap_vertices_def Let_def split: sum.splits dest: wrap_all_error)
next
  assume h: "ndim \<noteq> 0 \<and> ndim \<le> mDim m \<and> bbox_valid m \<and> ndim \<le> 3"
  then have "unat ndim \<le> unat (3 :: 8 word)"
    by (simp add: word_le_nat_alt)
  then have k: "unat ndim \<le> 3" by simp
  from wrap_all_upto [OF k, of ops "mBox0 m" "mBox1 m" "vsub ops (mBox1 m) (mBox0 m)" "mVertices m"]
  obtain vs' where vs': "wrap_all ops (mBox0 m) (mBox1 m) (vsub ops (mBox1 m) (mBox0 m))
                           (unat ndim) (mVertices m) = Inr vs'"
    "length vs' = length (mVertices m)"
    "\<forall>i<length (mVertices m). \<forall>d<3. at3 (vs' ! i) d
        = (if d < unat ndim
           then wrap_coord ops (at3 (mBox0 m) d) (at3 (mBox1 m) d)
                  (at3 (vsub ops (mBox1 m) (mBox0 m)) d) (at3 (mVertices m ! i) d)
           else at3 (mVertices m ! i) d)" by blast
  have "wrap_vertices ops m ndim = Inr (m\<lparr>mVertices := vs'\<rparr>)"
    using h vs'(1) by (simp add: wrap_vertices_def Let_def not_less)
  then show "\<exists>vs'. wrap_vertices ops m ndim = Inr (m\<lparr>mVertices := vs'\<rparr>)
           \<and> length vs' = length (mVertices m)
           \<and> (\<forall>i<length (mVertices m). \<forall>d<3.
                 at3 (vs' ! i) d
                   = (if d < unat ndim
                      then wrap_coord ops (at3 (mBox0 m) d) (at3 (mBox1 m) d)
                             (fl_sub ops (at3 (mBox1 m) d) (at3 (mBox0 m) d))
                             (at3 (mVertices m ! i) d)
                      else at3 (mVertices m ! i) d))"
    using vs'(2,3) by (auto simp: at3_vsub)
next
  assume "w = b1 - b0 \<and> (x < b0 \<longrightarrow> fl_add ops x w = x + w) \<and> (b1 \<le> x \<longrightarrow> fl_sub ops x w = x - w)
        \<and> b0 - w \<le> x \<and> x < b1 + w"
  then have r: "b0 \<le> wrap_coord ops b0 b1 w x \<and> wrap_coord ops b0 b1 w x < b1"
    by (rule wrap_coord_range)
  from r show "b0 \<le> wrap_coord ops b0 b1 w x" by simp
  from r show "wrap_coord ops b0 b1 w x < b1" by simp
qed (simp_all add: wrap_coord_below wrap_coord_above wrap_coord_inside)

theorem wrap_vertices_spec_witness:
  "wrap_vertices exact_ops boxed_mesh 2
     = Inr ((periodic_mesh 2 [(1/2, 1/2, 7), (1/4, 0, -3)])
        \<lparr>mBox0 := (0, 0, 0), mBox1 := (1, 1, 0), bbox_valid := True\<rparr>)
   \<and> wrap_vertices exact_ops boxed_mesh 3 = Inl LogicError
   \<and> wrap_coord exact_ops 0 1 1 (-1/2) = 1/2
   \<and> wrap_coord exact_ops 0 1 1 (3/2) = 1/2
   \<and> wrap_coord exact_ops 0 1 1 (1/4) = 1/4
   \<and> 0 \<le> wrap_coord exact_ops 0 1 1 (3/2) \<and> wrap_coord exact_ops 0 1 1 (3/2) < 1"
  using wrap_vertices_spec [of exact_ops boxed_mesh 2 "-1/2" 0 1 1]
    wrap_vertices_spec [of exact_ops boxed_mesh 3 "3/2" 0 1 1]
    wrap_vertices_spec [of exact_ops boxed_mesh 2 "1/4" 0 1 1]
  by (simp add: boxed_mesh_def periodic_mesh_def wrap_vertices_def upt_small wrap_coord_def
      exact_ops_def)

subsection \<open>write\_binary\<close>

text \<open>
  C5. For a mesh of the single triangle with vertices 0, 1, 2 and one registered field,
  \<open>write_binary\<close> emits, after the header, exactly three \<^verbatim>\<open>'v'\<close> tokens (one per
  vertex: index, position, the one field value), then exactly three \<^verbatim>\<open>'e'\<close> tokens
  carrying the directed edges 0 to 1, 1 to 2 and 2 to 0, then exactly three \<^verbatim>\<open>'f'\<close>
  tokens (one per vertex), in that order, whatever the positions and the field values are.
\<close>

theorem write_binary_single_triangle:
  "write_binary (m\<lparr>mVertices := [p0, p1, p2], mFaces := [(0, 1, 2)],
                   mFields := [(name, [a, b, c])]\<rparr>)
     = Inr [Header 4 4 [1, 1, 1],
            TokV 0 p0 [a], TokV 1 p1 [b], TokV 2 p2 [c],
            TokE 0 1, TokE 1 2, TokE 2 0,
            TokF 0, TokF 1, TokF 2]"
  by (simp add: write_binary_def vertex_token_def)

lemma incidence_Nil [simp]: "incidence v [] = 0"
  by (simp add: incidence_def)

lemma incidence_Cons: "incidence v (f # fs) = count_list (corners f) v + incidence v fs"
  by (simp add: incidence_def)

lemma bump3:
  assumes "f0 < length cs" "f1 < length cs" "f2 < length cs"
  shows "((cs[f0 := cs ! f0 + 1])[f1 := (cs[f0 := cs ! f0 + 1]) ! f1 + 1])
            [f2 := ((cs[f0 := cs ! f0 + 1])[f1 := (cs[f0 := cs ! f0 + 1]) ! f1 + 1]) ! f2 + 1] ! v
         = cs ! v + (of_nat (count_list [f0, f1, f2] v) :: 8 word)"
  using assms by (auto simp: nth_list_update)

lemma count_faces_counts:
  "count_faces counts first count fs = Inr (counts', first')
   \<Longrightarrow> length counts' = length counts
       \<and> (\<forall>v. counts' ! v = counts ! v + of_nat (incidence v fs))"
proof (induction fs arbitrary: counts first count)
  case Nil
  then show ?case by simp
next
  case (Cons f fs)
  obtain f0 f1 f2 where f: "f = (f0, f1, f2)" by (cases f) auto
  from Cons.prems have inr: "f0 < length counts" "f1 < length counts" "f2 < length counts"
    by (auto simp: f split: if_splits)
  define c3 where "c3 = ((counts[f0 := counts ! f0 + 1])[f1 := (counts[f0 := counts ! f0 + 1]) ! f1 + 1])
            [f2 := ((counts[f0 := counts ! f0 + 1])[f1 := (counts[f0 := counts ! f0 + 1]) ! f1 + 1]) ! f2 + 1]"
  from Cons.prems obtain fst3 where
    rec: "count_faces c3 fst3 (count + 1) fs = Inr (counts', first')"
    by (auto simp: f c3_def Let_def split: if_splits)
  from Cons.IH [OF rec] have
    "length counts' = length c3" "\<forall>v. counts' ! v = c3 ! v + of_nat (incidence v fs)" by auto
  moreover have "length c3 = length counts" by (simp add: c3_def)
  moreover have "\<And>v. c3 ! v = counts ! v + of_nat (count_list [f0, f1, f2] v)"
    unfolding c3_def using inr by (rule bump3)
  ultimately show ?case
    by (simp add: incidence_Cons f add.assoc)
qed

lemma closes_add: "closes c (a + b) = closes c a + closes (c - of_nat a) b"
  by (induction a arbitrary: c) (simp_all add: diff_diff_eq)

lemma closes_closed_form:
  "closes c n = (if unat c = 0 then n div 256 else (n + 256 - unat c) div 256)"
proof (induction n arbitrary: c)
  case 0
  have "unat c < 256" using unsigned_less [of c, where ?'a = nat] by simp
  then show ?case by simp
next
  case (Suc n)
  have lt: "unat c < 256" using unsigned_less [of c, where ?'a = nat] by simp
  consider "c = 0" | "c = 1" | "c \<noteq> 0" "c \<noteq> 1" by blast
  then show ?case
  proof cases
    case 1
    have "unat (- 1 :: 8 word) = 255"
      by (simp add: unsigned_minus_1_eq_mask mask_eq_exp_minus_1)
    then have "unat (c - 1) = 255" using 1 by simp
    then show ?thesis using 1 Suc.IH [of "c - 1"] by simp
  next
    case 2
    then show ?thesis using Suc.IH [of "c - 1"] by simp
  next
    case 3
    then have "unat c \<noteq> 0" by (simp add: unat_eq_0)
    moreover have "unat (c - 1) = unat c - 1" using 3 by (simp add: unat_minus_one)
    moreover have "unat c \<noteq> 1" using 3 by (metis unat_1 word_unat_eq_iff)
    moreover have "c - 1 \<noteq> 0" using 3 by simp
    ultimately show ?thesis using Suc.IH [of "c - 1"] lt by simp
  qed
qed

lemma close_corners_counts:
  "close_corners counts cs = Inr (counts', out)
   \<Longrightarrow> length counts' = length counts
       \<and> (\<forall>v. counts' ! v = counts ! v - of_nat (count_list cs v))
       \<and> (\<forall>v. count_list out (TokF v) = closes (counts ! v) (count_list cs v))
       \<and> (\<forall>t \<in> set out. \<exists>v. t = TokF v)"
proof (induction cs arbitrary: counts counts' out)
  case Nil
  then show ?case by simp
next
  case (Cons x xs)
  from Cons.prems have x: "x < length counts" by (auto split: if_splits)
  define c1 where "c1 = counts[x := counts ! x - 1]"
  from Cons.prems x obtain out' where
    rec: "close_corners c1 xs = Inr (counts', out')"
    and out: "out = (if c1 ! x = 0 then [TokF x] else []) @ out'"
    by (auto simp: c1_def Let_def split: sum.splits)
  note IH = Cons.IH [OF rec]
  have c1x: "c1 ! x = counts ! x - 1" using x by (simp add: c1_def)
  have c1v: "\<And>v. v \<noteq> x \<Longrightarrow> c1 ! v = counts ! v" by (simp add: c1_def)
  have "length counts' = length counts" using IH by (simp add: c1_def)
  moreover have "\<forall>v. counts' ! v = counts ! v - of_nat (count_list (x # xs) v)"
    using IH c1x c1v by (auto simp: diff_diff_eq add.commute)
  moreover have "\<forall>v. count_list out (TokF v) = closes (counts ! v) (count_list (x # xs) v)"
    using IH c1x c1v by (auto simp: out)
  moreover have "\<forall>t \<in> set out. \<exists>v. t = TokF v"
    using IH by (auto simp: out)
  ultimately show ?case by blast
qed


lemma write_verts_tokens:
  "write_verts verts flds first count vs = Inr ts
   \<Longrightarrow> \<forall>t \<in> set ts. \<not> is_edge_token t \<and> (\<forall>v. t \<noteq> TokF v)"
proof (induction vs arbitrary: ts)
  case Nil
  then show ?case by simp
next
  case (Cons v vs)
  then show ?case
    by (auto simp: vertex_token_def split: if_splits sum.splits)
qed

lemma no_TokF_in_verts:
  assumes "write_verts verts flds first count vs = Inr ts"
  shows "count_list ts (TokF v) = 0" "num_edges ts = 0"
proof -
  from write_verts_tokens [OF assms]
  have *: "\<forall>t \<in> set ts. \<not> is_edge_token t \<and> (\<forall>v. t \<noteq> TokF v)" .
  then have "TokF v \<notin> set ts" by auto
  then show "count_list ts (TokF v) = 0" by simp
  from * have "filter is_edge_token ts = []" by (auto simp: filter_empty_conv)
  then show "num_edges ts = 0" by (simp add: num_edges_def)
qed

lemma num_edges_only_TokF:
  assumes "\<forall>t \<in> set ts. \<exists>v. t = TokF v"
  shows "num_edges ts = 0"
proof -
  from assms have "filter is_edge_token ts = []" by (auto simp: filter_empty_conv)
  then show ?thesis by (simp add: num_edges_def)
qed

lemma num_edges_append: "num_edges (xs @ ys) = num_edges xs + num_edges ys"
  by (simp add: num_edges_def)

lemma num_edges_Cons:
  "num_edges (t # ts) = (if is_edge_token t then 1 else 0) + num_edges ts"
  by (simp add: num_edges_def)

lemma write_faces_Cons:
  assumes "write_faces verts flds first counts count (f # fs) = Inr out"
  obtains vtoks counts' ftoks rest where
    "write_verts verts flds first count (corners f) = Inr vtoks"
    "close_corners counts (corners f) = Inr (counts', ftoks)"
    "write_faces verts flds first counts' (count + 1) fs = Inr rest"
    "out = vtoks @ [TokE (at3 f 0) (at3 f 1), TokE (at3 f 1) (at3 f 2), TokE (at3 f 2) (at3 f 0)]
             @ ftoks @ rest"
  using assms by (auto simp: Let_def split: sum.splits)

lemma write_faces_close_count:
  "write_faces verts flds first counts count fs = Inr out
   \<Longrightarrow> count_list out (TokF v) = closes (counts ! v) (incidence v fs)"
proof (induction fs arbitrary: counts count out)
  case Nil
  then show ?case by simp
next
  case (Cons f fs)
  from Cons.prems obtain vtoks counts' ftoks rest where
    v: "write_verts verts flds first count (corners f) = Inr vtoks"
    and c: "close_corners counts (corners f) = Inr (counts', ftoks)"
    and r: "write_faces verts flds first counts' (count + 1) fs = Inr rest"
    and out: "out = vtoks @ [TokE (at3 f 0) (at3 f 1), TokE (at3 f 1) (at3 f 2),
                             TokE (at3 f 2) (at3 f 0)] @ ftoks @ rest"
    by (rule write_faces_Cons)
  from close_corners_counts [OF c] have
    c': "counts' ! v = counts ! v - of_nat (count_list (corners f) v)"
    and ft: "count_list ftoks (TokF v) = closes (counts ! v) (count_list (corners f) v)"
    by auto
  have "count_list out (TokF v) = count_list ftoks (TokF v) + count_list rest (TokF v)"
    using no_TokF_in_verts(1) [OF v] by (simp add: out)
  also have "\<dots> = closes (counts ! v) (count_list (corners f) v)
                    + closes (counts' ! v) (incidence v fs)"
    using ft Cons.IH [OF r] by simp
  also have "\<dots> = closes (counts ! v) (incidence v (f # fs))"
    by (simp add: incidence_Cons closes_add c')
  finally show ?case .
qed

lemma closes_exact: "unat c = n \<Longrightarrow> 1 \<le> n \<Longrightarrow> closes c n = 1"
  by (simp add: closes_closed_form)

lemma incidence_zero: "incidence v fs = 0 \<Longrightarrow> i < length fs \<Longrightarrow> v \<notin> set (corners (fs ! i))"
proof (induction fs arbitrary: i)
  case Nil
  then show ?case by simp
next
  case (Cons f fs)
  then show ?case by (cases i) (auto simp: incidence_Cons count_list_0_iff)
qed

lemma write_faces_last:
  assumes "write_faces verts flds first counts count fs = Inr out"
    and "unat (counts ! v) = incidence v fs" and "1 \<le> incidence v fs"
  shows "\<exists>ts1 ts2 i. out = ts1 @ TokF v # ts2 \<and> i < length fs \<and> v \<in> set (corners (fs ! i))
           \<and> (\<forall>j. i < j \<and> j < length fs \<longrightarrow> v \<notin> set (corners (fs ! j)))
           \<and> num_edges ts1 = 3 * (i + 1)"
  using assms
proof (induction fs arbitrary: counts count out)
  case Nil
  then show ?case by simp
next
  case (Cons f fs)
  from Cons.prems(1) obtain vtoks counts' ftoks rest where
    v: "write_verts verts flds first count (corners f) = Inr vtoks"
    and c: "close_corners counts (corners f) = Inr (counts', ftoks)"
    and r: "write_faces verts flds first counts' (count + 1) fs = Inr rest"
    and out: "out = vtoks @ [TokE (at3 f 0) (at3 f 1), TokE (at3 f 1) (at3 f 2),
                             TokE (at3 f 2) (at3 f 0)] @ ftoks @ rest"
    by (rule write_faces_Cons)
  let ?k = "count_list (corners f) v"
  let ?etoks = "[TokE (at3 f 0) (at3 f 1), TokE (at3 f 1) (at3 f 2), TokE (at3 f 2) (at3 f 0)]"
  from close_corners_counts [OF c] have
    c': "counts' ! v = counts ! v - of_nat ?k"
    and ft: "count_list ftoks (TokF v) = closes (counts ! v) ?k"
    and only: "\<forall>t \<in> set ftoks. \<exists>v. t = TokF v"
    by auto
  have tot: "unat (counts ! v) = ?k + incidence v fs"
    using Cons.prems(2) by (simp add: incidence_Cons)
  have ne: "num_edges vtoks = 0" "num_edges ftoks = 0" "num_edges ?etoks = 3"
    using no_TokF_in_verts(2) [OF v] num_edges_only_TokF [OF only]
    by (simp_all add: num_edges_def)
  show ?case
  proof (cases "incidence v fs = 0")
    case True
    then have k: "unat (counts ! v) = ?k" "1 \<le> ?k"
      using tot Cons.prems(3) by (simp_all add: incidence_Cons)
    then have "count_list ftoks (TokF v) = 1" using ft by (simp add: closes_exact)
    then have "TokF v \<in> set ftoks" by (metis count_list_0_iff zero_neq_one)
    then obtain a b where ab: "ftoks = a @ TokF v # b" by (meson split_list)
    have "\<forall>t \<in> set a. \<exists>v. t = TokF v" using only ab by auto
    then have nea: "num_edges a = 0" by (rule num_edges_only_TokF)
    have "out = (vtoks @ ?etoks @ a) @ TokF v # (b @ rest)" by (simp add: out ab)
    moreover have "v \<in> set (corners f)" using k(2) by (metis count_list_0_iff not_one_le_zero)
    moreover have "\<forall>j. 0 < j \<and> j < length (f # fs) \<longrightarrow> v \<notin> set (corners ((f # fs) ! j))"
      using incidence_zero [OF True] by (auto simp: nth_Cons split: nat.splits)
    moreover have "num_edges (vtoks @ ?etoks @ a) = 3 * (0 + 1)"
      using ne nea by (simp add: num_edges_append num_edges_Cons)
    ultimately show ?thesis
      by (intro exI [of _ "vtoks @ ?etoks @ a"] exI [of _ "b @ rest"] exI [of _ 0]) simp
  next
    case False
    have le: "?k \<le> unat (counts ! v)" using tot by simp
    have lt: "unat (counts ! v) < 256" using unsigned_less [of "counts ! v", where ?'a = nat] by simp
    have "unat (of_nat ?k :: 8 word) = ?k" using le by (rule le_unat_uoi)
    then have "unat (counts' ! v) = unat (counts ! v) - ?k"
      using le by (simp add: c' unat_sub word_le_nat_alt)
    then have inv: "unat (counts' ! v) = incidence v fs" using tot by simp
    from Cons.IH [OF r inv] False obtain ts1 ts2 i where
      rest: "rest = ts1 @ TokF v # ts2" and i: "i < length fs" "v \<in> set (corners (fs ! i))"
      and later: "\<forall>j. i < j \<and> j < length fs \<longrightarrow> v \<notin> set (corners (fs ! j))"
      and n1: "num_edges ts1 = 3 * (i + 1)"
      by auto
    have "out = (vtoks @ ?etoks @ ftoks @ ts1) @ TokF v # ts2" by (simp add: out rest)
    moreover have "Suc i < length (f # fs)" "v \<in> set (corners ((f # fs) ! Suc i))"
      using i by simp_all
    moreover have "\<forall>j. Suc i < j \<and> j < length (f # fs) \<longrightarrow> v \<notin> set (corners ((f # fs) ! j))"
      using later by (auto simp: nth_Cons split: nat.splits)
    moreover have "num_edges (vtoks @ ?etoks @ ftoks @ ts1) = 3 * (Suc i + 1)"
      using ne n1 by (simp add: num_edges_append num_edges_Cons)
    ultimately show ?thesis
      by (intro exI [of _ "vtoks @ ?etoks @ ftoks @ ts1"] exI [of _ ts2] exI [of _ "Suc i"]) simp
  qed
qed


lemma count_faces_total:
  "faces_in_range nv fs \<Longrightarrow> length counts = nv \<Longrightarrow> length first = nv
   \<Longrightarrow> \<exists>c f. count_faces counts first count fs = Inr (c, f) \<and> length c = nv \<and> length f = nv"
proof (induction fs arbitrary: counts first count)
  case Nil
  then show ?case by simp
next
  case (Cons f fs)
  obtain f0 f1 f2 where f: "f = (f0, f1, f2)" by (cases f) auto
  from Cons.prems(1) have r: "f0 < nv" "f1 < nv" "f2 < nv" "faces_in_range nv fs"
    by (simp_all add: faces_in_range_def f)
  show ?case
    using r(1-3) Cons.prems(2,3)
    by (simp add: f Let_def) (rule Cons.IH [OF r(4)], simp_all)
qed

lemma write_verts_total:
  "list_all (\<lambda>v. v < nv) vs \<Longrightarrow> length first = nv \<Longrightarrow> length verts = nv
   \<Longrightarrow> flds_in_range nv flds
   \<Longrightarrow> \<exists>ts. write_verts verts flds first count vs = Inr ts"
proof (induction vs)
  case Nil
  then show ?case by simp
next
  case (Cons v vs)
  then have v: "v < nv" and IH: "\<exists>ts. write_verts verts flds first count vs = Inr ts" by auto
  have "list_all (\<lambda>(name, data). v < length data) flds"
    using Cons.prems(4) v by (auto simp: flds_in_range_def list_all_iff)
  then obtain t where "vertex_token verts flds v = Inr t"
    using v Cons.prems(3) by (simp add: vertex_token_def)
  then show ?case using IH v Cons.prems(2) by auto
qed

lemma close_corners_total:
  "list_all (\<lambda>v. v < length counts) vs \<Longrightarrow> \<exists>c out. close_corners counts vs = Inr (c, out)"
proof (induction vs arbitrary: counts)
  case Nil
  then show ?case by simp
next
  case (Cons v vs)
  then have "list_all (\<lambda>u. u < length (counts[v := counts ! v - 1])) vs" by simp
  from Cons.IH [OF this] show ?case using Cons.prems by (auto simp: Let_def)
qed

lemma write_faces_total:
  "faces_in_range nv fs \<Longrightarrow> length first = nv \<Longrightarrow> length verts = nv \<Longrightarrow> length counts = nv
   \<Longrightarrow> flds_in_range nv flds
   \<Longrightarrow> \<exists>out. write_faces verts flds first counts count fs = Inr out"
proof (induction fs arbitrary: counts count)
  case Nil
  then show ?case by simp
next
  case (Cons f fs)
  from Cons.prems(1) have r: "list_all (\<lambda>v. v < nv) (corners f)" "faces_in_range nv fs"
    by (simp_all add: faces_in_range_def)
  from write_verts_total [OF r(1) Cons.prems(2,3,5)] obtain vtoks where
    v: "write_verts verts flds first count (corners f) = Inr vtoks" by blast
  from close_corners_total [of counts "corners f"] r(1) Cons.prems(4) obtain c' ftoks where
    c: "close_corners counts (corners f) = Inr (c', ftoks)" by auto
  from close_corners_counts [OF c] Cons.prems(4) have "length c' = nv" by simp
  from Cons.IH [OF r(2) Cons.prems(2,3) this Cons.prems(5), of "count + 1"] obtain rest where
    "write_faces verts flds first c' (count + 1) fs = Inr rest" by blast
  then show ?case using v c by (simp add: Let_def)
qed

lemma incidence_out_of_range:
  "faces_in_range nv fs \<Longrightarrow> nv \<le> v \<Longrightarrow> incidence v fs = 0"
  by (induction fs) (auto simp: incidence_Cons faces_in_range_def)

lemma closes_of_nat:
  "closes (of_nat n) n = (if n mod 256 = 0 then n div 256 else (n + 256 - n mod 256) div 256)"
  by (simp add: closes_closed_form unat_of_nat)

text \<open>
  C10. \<open>write_binary\<close> keeps the incidence count of a vertex in an 8-bit counter, so after
  the first pass the counter holds the count modulo 256. For a mesh whose faces and fields
  are in range the call returns, and:
  \<^item> for every vertex whose count is between 1 and 255, exactly one \<^verbatim>\<open>'f'\<close> token is
    written for it, and it is written while the last face that holds the vertex is processed:
    the tokens before it hold the edges of exactly the faces up to and including that face;
  \<^item> for a vertex whose count is \<open>256 \<sqdot> k\<close> with \<open>k \<ge> 1\<close>, the counter starts at 0 (the
    wrapped count) and \<open>k\<close> such tokens are written (one each time the wrapped counter
    reads zero), not the single token the true count would give.
  The count is the number of corner slots holding the vertex (\<open>incidence\<close>), which is the
  number of incident faces when the corners of each face are distinct.
\<close>

theorem write_binary_close_tokens:
  assumes faces: "faces_in_range (length (mVertices m)) (mFaces m)"
    and flds: "flds_in_range (length (mVertices m)) (mFields m)"
  shows "\<exists>counts first out.
           count_faces (replicate (length (mVertices m)) 0) (replicate (length (mVertices m)) (- 1))
               0 (mFaces m) = Inr (counts, first)
         \<and> write_binary m = Inr out
         \<and> (\<forall>v < length (mVertices m). unat (counts ! v) = incidence v (mFaces m) mod 256)
         \<and> (\<forall>v. 1 \<le> incidence v (mFaces m) \<and> incidence v (mFaces m) \<le> 255 \<longrightarrow>
                count_list out (TokF v) = 1
              \<and> (\<exists>ts1 ts2 i. out = ts1 @ TokF v # ts2 \<and> i < length (mFaces m)
                    \<and> v \<in> set (corners (mFaces m ! i))
                    \<and> (\<forall>j. i < j \<and> j < length (mFaces m) \<longrightarrow> v \<notin> set (corners (mFaces m ! j)))
                    \<and> num_edges ts1 = 3 * (i + 1)))
         \<and> (\<forall>v k. 1 \<le> k \<and> incidence v (mFaces m) = 256 * k \<longrightarrow>
                counts ! v = 0 \<and> count_list out (TokF v) = k)"
proof -
  let ?nv = "length (mVertices m)"
  let ?fs = "mFaces m"
  from count_faces_total [OF faces, of "replicate ?nv 0" "replicate ?nv (- 1)" 0]
  obtain counts first where
    cf: "count_faces (replicate ?nv 0) (replicate ?nv (- 1)) 0 ?fs = Inr (counts, first)"
    and len: "length counts = ?nv" "length first = ?nv" by auto
  from write_faces_total [OF faces len(2) refl len(1) flds, of 0] obtain toks where
    wf: "write_faces (mVertices m) (mFields m) first counts 0 ?fs = Inr toks" by blast
  let ?out = "Header 4 4 [1, 1, 1] # toks"
  have wb: "write_binary m = Inr ?out"
    using cf wf by (simp add: write_binary_def)
  have cnt: "counts ! v = of_nat (incidence v ?fs)" if "v < ?nv" for v
    using count_faces_counts [OF cf] that by simp
  have inr: "v < ?nv" if "1 \<le> incidence v ?fs" for v
    using incidence_out_of_range [OF faces, of v] that by (cases "v < ?nv") auto
  have toks: "count_list ?out (TokF v) = closes (counts ! v) (incidence v ?fs)" for v
    using write_faces_close_count [OF wf, of v] by simp
  have p1: "\<forall>v < ?nv. unat (counts ! v) = incidence v ?fs mod 256"
    using cnt by (simp add: unat_of_nat)
  have p2: "count_list ?out (TokF v) = 1
              \<and> (\<exists>ts1 ts2 i. ?out = ts1 @ TokF v # ts2 \<and> i < length ?fs
                    \<and> v \<in> set (corners (?fs ! i))
                    \<and> (\<forall>j. i < j \<and> j < length ?fs \<longrightarrow> v \<notin> set (corners (?fs ! j)))
                    \<and> num_edges ts1 = 3 * (i + 1))"
    if n: "1 \<le> incidence v ?fs \<and> incidence v ?fs \<le> 255" for v
  proof -
    have v: "v < ?nv" using n inr by simp
    have u: "unat (counts ! v) = incidence v ?fs" using p1 v n by simp
    have "count_list ?out (TokF v) = 1"
      using toks [of v] closes_exact [OF u] n by simp
    moreover from write_faces_last [OF wf u] n obtain ts1 ts2 i where
      *: "toks = ts1 @ TokF v # ts2" "i < length ?fs" "v \<in> set (corners (?fs ! i))"
      "\<forall>j. i < j \<and> j < length ?fs \<longrightarrow> v \<notin> set (corners (?fs ! j))"
      "num_edges ts1 = 3 * (i + 1)" by auto
    have "?out = (Header 4 4 [1, 1, 1] # ts1) @ TokF v # ts2" using *(1) by simp
    moreover have "num_edges (Header 4 4 [1, 1, 1] # ts1) = 3 * (i + 1)"
      using *(5) by (simp add: num_edges_Cons)
    ultimately show ?thesis using *(2,3,4) by blast
  qed
  have p3: "counts ! v = 0 \<and> count_list ?out (TokF v) = k"
    if n: "1 \<le> k \<and> incidence v ?fs = 256 * k" for v k
  proof -
    have v: "v < ?nv" using n inr by simp
    have c: "counts ! v = of_nat (256 * k)" using cnt [OF v] n by simp
    have "unat (of_nat (256 * k) :: 8 word) = (256 * k) mod 2 ^ 8"
      using unat_of_nat [of "256 * k", where ?'a = 8] by (simp del: of_nat_mult)
    then have "unat (counts ! v) = 0" unfolding c by (simp del: of_nat_mult)
    then have "counts ! v = 0" by (simp add: unat_eq_0)
    moreover have "count_list ?out (TokF v) = k"
      using toks [of v] closes_of_nat [of "256 * k"] c n by simp
    ultimately show ?thesis by simp
  qed
  show ?thesis
    using cf wb p1 p2 p3 by blast
qed


lemma incidence_replicate: "incidence v (replicate n f) = n * count_list (corners f) v"
  by (induction n) (simp_all add: incidence_Cons)

theorem write_binary_close_tokens_witness:
  "(\<exists>out. write_binary two_triangles = Inr out \<and> count_list out (TokF 0) = 1
       \<and> (\<exists>ts1 ts2. out = ts1 @ TokF 0 # ts2 \<and> num_edges ts1 = 6))
   \<and> (\<exists>out. write_binary stacked_triangles = Inr out \<and> count_list out (TokF 0) = 2)"
proof
  have fs: "mFaces two_triangles = [(0, 1, 2), (0, 2, 3)]"
    by (simp add: two_triangles_def plain_mesh_def)
  have h1: "faces_in_range (length (mVertices two_triangles)) (mFaces two_triangles)"
    and h2: "flds_in_range (length (mVertices two_triangles)) (mFields two_triangles)"
    by (simp_all add: two_triangles_def plain_mesh_def faces_in_range_def flds_in_range_def)
  have inc: "1 \<le> incidence 0 (mFaces two_triangles) \<and> incidence 0 (mFaces two_triangles) \<le> 255"
    by (simp add: fs incidence_def)
  from write_binary_close_tokens [OF h1 h2] obtain out where
    wb: "write_binary two_triangles = Inr out"
    and p2: "\<forall>v. 1 \<le> incidence v (mFaces two_triangles) \<and> incidence v (mFaces two_triangles) \<le> 255 \<longrightarrow>
                count_list out (TokF v) = 1
              \<and> (\<exists>ts1 ts2 i. out = ts1 @ TokF v # ts2 \<and> i < length (mFaces two_triangles)
                    \<and> v \<in> set (corners (mFaces two_triangles ! i))
                    \<and> (\<forall>j. i < j \<and> j < length (mFaces two_triangles)
                           \<longrightarrow> v \<notin> set (corners (mFaces two_triangles ! j)))
                    \<and> num_edges ts1 = 3 * (i + 1))"
    by (elim exE conjE) (erule (1) that)
  from p2 [rule_format, OF inc] obtain ts1 ts2 i where
    out: "count_list out (TokF 0) = 1"
    "out = ts1 @ TokF 0 # ts2" "i < length (mFaces two_triangles)"
    "\<forall>j. i < j \<and> j < length (mFaces two_triangles)
         \<longrightarrow> 0 \<notin> set (corners (mFaces two_triangles ! j))"
    "num_edges ts1 = 3 * (i + 1)"
    by (elim exE conjE) (erule (1) that)
  have "i = 1"
  proof (rule ccontr)
    assume "i \<noteq> 1"
    then have "i = 0" using out(3) by (simp add: fs)
    then show False using out(4) [rule_format, of 1] by (simp add: fs)
  qed
  then have "num_edges ts1 = 6" using out(5) by simp
  then show "\<exists>out. write_binary two_triangles = Inr out \<and> count_list out (TokF 0) = 1
       \<and> (\<exists>ts1 ts2. out = ts1 @ TokF 0 # ts2 \<and> num_edges ts1 = 6)"
    using wb out(1,2) by blast
next
  have h1: "faces_in_range (length (mVertices stacked_triangles)) (mFaces stacked_triangles)"
    and h2: "flds_in_range (length (mVertices stacked_triangles)) (mFields stacked_triangles)"
    by (simp_all add: stacked_triangles_def plain_mesh_def faces_in_range_def flds_in_range_def
        list_all_iff)
  have inc: "1 \<le> (2::nat) \<and> incidence 0 (mFaces stacked_triangles) = 256 * 2"
    by (simp add: stacked_triangles_def plain_mesh_def incidence_replicate)
  from write_binary_close_tokens [OF h1 h2] obtain counts :: "8 word list" and out where
    wb: "write_binary stacked_triangles = Inr out"
    and p3: "\<forall>v k. 1 \<le> k \<and> incidence v (mFaces stacked_triangles) = 256 * k \<longrightarrow>
                counts ! v = 0 \<and> count_list out (TokF v) = k"
    by (elim exE conjE) (erule (1) that)
  from p3 [rule_format, OF inc] wb
  show "\<exists>out. write_binary stacked_triangles = Inr out \<and> count_list out (TokF 0) = 2"
    by blast
qed

subsection \<open>need\_boundary on a closed mesh\<close>

lemma need_across_edge_fresh:
  "mFAcrossEdge m = [] \<Longrightarrow> need_adjacentfaces m = Inr m1 \<Longrightarrow> mVAdjFaces m1 \<noteq> []
   \<Longrightarrow> across_loop (mFaces m1) (mVAdjFaces m1) (replicate (length (mFaces m1)) (- 1, - 1, - 1))
         (face_edges (length (mFaces m1))) = Inr a
   \<Longrightarrow> need_across_edge m = Inr (m1\<lparr>mFAcrossEdge := a\<rparr>)"
  by (simp add: need_across_edge_def)

lemma tetra_adj: "need_adjacentfaces tetrahedron
   = Inr (tetrahedron\<lparr>mVAdjFaces := [[0, 1, 2], [0, 1, 3], [0, 2, 3], [1, 2, 3]]\<rparr>)"
  by (simp add: need_adjacentfaces_def tetrahedron_def plain_mesh_def)

lemma tetra_loop:
  "across_loop [(0, 2, 1), (0, 1, 3), (0, 3, 2), (1, 2, 3)]
     [[0, 1, 2], [0, 1, 3], [0, 2, 3], [1, 2, 3]] (replicate 4 (- 1, - 1, - 1)) (face_edges 4)
   = Inr [(3, 1, 2), (3, 2, 0), (3, 0, 1), (2, 1, 0)]"
  by code_simp

lemma tetra_across: "need_across_edge tetrahedron
   = Inr (tetrahedron\<lparr>mVAdjFaces := [[0, 1, 2], [0, 1, 3], [0, 2, 3], [1, 2, 3]],
          mFAcrossEdge := [(3, 1, 2), (3, 2, 0), (3, 0, 1), (2, 1, 0)]\<rparr>)"
proof (rule need_across_edge_fresh [OF _ tetra_adj])
  let ?m1 = "tetrahedron\<lparr>mVAdjFaces := [[0, 1, 2], [0, 1, 3], [0, 2, 3], [1, 2, 3]]\<rparr>"
  show "mFAcrossEdge tetrahedron = []" by (simp add: tetrahedron_def plain_mesh_def)
  have e1: "mFaces ?m1 = [(0, 2, 1), (0, 1, 3), (0, 3, 2), (1, 2, 3)]"
    by (simp add: tetrahedron_def plain_mesh_def)
  have e2: "mVAdjFaces ?m1 = [[0, 1, 2], [0, 1, 3], [0, 2, 3], [1, 2, 3]]" by simp
  have e3: "length [(0, 2, 1), (0, 1, 3), (0, 3, 2), (1, 2, 3 :: nat)] = (4 :: nat)" by simp
  show "mVAdjFaces ?m1 \<noteq> []" by simp
  show "across_loop (mFaces ?m1) (mVAdjFaces ?m1) (replicate (length (mFaces ?m1)) (- 1, - 1, - 1))
         (face_edges (length (mFaces ?m1))) = Inr [(3, 1, 2), (3, 2, 0), (3, 0, 1), (2, 1, 0)]"
    by (simp only: e1 e2 e3 tetra_loop)
qed

lemma reorder_empty: "reorder_edges (size_t_pred 0) 0 [] = Inl OutOfRange"
  by (subst reorder_edges.simps, subst find_next.simps) (simp add: size_t_pred_def)

lemma collect_boundary_closed:
  assumes "\<forall>(i, j) \<in> set ps. i < length faces \<and> i < length across \<and> at3 (across ! i) j \<noteq> - 1"
  shows "collect_boundary faces across es ps = Inr es"
  using assms by (induction ps arbitrary: es) auto

lemma face_edges_set: "(i, j) \<in> set (face_edges nf) \<longleftrightarrow> i < nf \<and> j < 3"
  by (auto simp: face_edges_def)

text \<open>
  C2 (the code departs from the claim). For a mesh whose across-edge table has no \<open>-1\<close>
  entry, \<open>need_boundary\<close> collects no boundary edge. The bound \<^verbatim>\<open>nbedges-1\<close> of the
  reordering loop is then \<open>0 - 1\<close> in \<^verbatim>\<open>size_t\<close>, that is \<open>2^64 - 1\<close>, so the loop
  body runs with \<open>bidx = 0\<close> and reads \<^verbatim>\<open>bedges[0]\<close> of the empty vector: an
  out-of-range access, instead of the return of an empty list.
\<close>

theorem need_boundary_closed_mesh_out_of_range:
  assumes "bedges m = []"
    and "need_across_edge m = Inr m1"
    and "length (mFAcrossEdge m1) = length (mFaces m1)"
    and "\<forall>i < length (mFaces m1). \<forall>j < 3. at3 (mFAcrossEdge m1 ! i) j \<noteq> - 1"
  shows "need_boundary m = Inl OutOfRange"
proof -
  have "collect_boundary (mFaces m1) (mFAcrossEdge m1) [] (face_edges (length (mFaces m1))) = Inr []"
    by (rule collect_boundary_closed) (use assms(3,4) in \<open>auto simp: face_edges_set\<close>)
  then show ?thesis
    using assms(1,2) by (simp add: need_boundary_def reorder_empty)
qed

theorem need_boundary_tetrahedron_out_of_range:
  "need_boundary tetrahedron = Inl OutOfRange"
proof (rule need_boundary_closed_mesh_out_of_range [OF _ tetra_across])
  show "bedges tetrahedron = []" by (simp add: tetrahedron_def plain_mesh_def)
  let ?m1 = "tetrahedron\<lparr>mVAdjFaces := [[0, 1, 2], [0, 1, 3], [0, 2, 3], [1, 2, 3]],
          mFAcrossEdge := [(3, 1, 2), (3, 2, 0), (3, 0, 1), (2, 1, 0)]\<rparr>"
  show "length (mFAcrossEdge ?m1) = length (mFaces ?m1)"
    by (simp add: tetrahedron_def plain_mesh_def)
  show "\<forall>i < length (mFaces ?m1). \<forall>j < 3. at3 (mFAcrossEdge ?m1 ! i) j \<noteq> - 1"
    by (simp add: tetrahedron_def plain_mesh_def all_less_3 less_Suc_eq numeral_3_eq_3
        all_conj_distrib)
qed

subsection \<open>need\_across\_edge\<close>

lemma at3_upd3: "q < 3 \<Longrightarrow> j < 3 \<Longrightarrow> at3 (upd3 t j x) q = (if q = j then x else at3 t q)"
  by (cases t) auto

lemma at3_in_corners: "k < 3 \<Longrightarrow> at3 f k \<in> set (corners f)"
  by (cases f) auto

lemma corners_at3: "v \<in> set (corners f) \<Longrightarrow> at3 f 0 = v \<or> at3 f 1 = v \<or> at3 f 2 = v"
  by (cases f) auto

lemma adj_push_ok:
  assumes "adj_push adj i vs = Inr adj'"
    and "adj_ok faces adj" and "i < length faces" and "set vs \<subseteq> set (corners (faces ! i))"
  shows "adj_ok faces adj' \<and> length adj' = length adj"
  using assms
proof (induction vs arbitrary: adj)
  case Nil
  then show ?case by simp
next
  case (Cons v vs)
  from Cons.prems(1) have v: "v < length adj"
    and rec: "adj_push (adj[v := adj ! v @ [i]]) i vs = Inr adj'"
    by (auto split: if_splits)
  have "adj_ok faces (adj[v := adj ! v @ [i]])"
    using Cons.prems(2,3,4) v by (auto simp: adj_ok_def nth_list_update)
  from Cons.IH [OF rec this Cons.prems(3)] Cons.prems(4) show ?case by simp
qed

lemma adj_faces_ok:
  assumes "adj_faces adj (length pre) fs = Inr adj'" and "adj_ok (pre @ fs) adj"
  shows "adj_ok (pre @ fs) adj' \<and> length adj' = length adj"
  using assms
proof (induction fs arbitrary: pre adj)
  case Nil
  then show ?case by simp
next
  case (Cons f fs)
  from Cons.prems(1) obtain adj1 where
    p: "adj_push adj (length pre) (corners f) = Inr adj1"
    and rec: "adj_faces adj1 (length (pre @ [f])) fs = Inr adj'"
    by (auto split: sum.splits)
  have "adj_ok (pre @ f # fs) adj1 \<and> length adj1 = length adj"
    by (rule adj_push_ok [OF p Cons.prems(2)]) simp_all
  then have a1: "adj_ok ((pre @ [f]) @ fs) adj1" and l1: "length adj1 = length adj" by simp_all
  from Cons.IH [OF rec a1] l1 show ?case by simp
qed

lemma find_across_sound:
  assumes "find_across faces i v1 v2 a2 a1 = Inr (Some (other, ind))"
    and "\<forall>f \<in> set a1. f < length faces \<and> v1 \<in> set (corners (faces ! f))"
  shows "other < length faces \<and> other \<noteq> i \<and> ind < 3
         \<and> at3 (faces ! other) ((ind + 1) mod 3) = v2
         \<and> at3 (faces ! other) ((ind + 2) mod 3) = v1"
  using assms
proof (induction a1)
  case Nil
  then show ?case by simp
next
  case (Cons f rest)
  from Cons.prems(2) have f: "f < length faces" "v1 \<in> set (corners (faces ! f))" by simp_all
  from corners_at3 [OF f(2)] have
    c: "at3 (faces ! f) 0 = v1 \<or> at3 (faces ! f) 1 = v1 \<or> at3 (faces ! f) 2 = v1" .
  show ?case
  proof (cases "find_across faces i v1 v2 a2 (f # rest) = find_across faces i v1 v2 a2 rest")
    case True
    then show ?thesis using Cons by simp
  next
    case False
    then have "other = f \<and> f \<noteq> i \<and> ind < 3
         \<and> at3 (faces ! f) ((ind + 1) mod 3) = v2
         \<and> at3 (faces ! f) ((ind + 2) mod 3) = v1"
      using Cons.prems(1) f(1) c
      by (auto simp: Let_def numeral_2_eq_2 split: if_splits)
    then show ?thesis using f(1) by simp
  qed
qed

lemma find_across_total:
  assumes "\<forall>f \<in> set a1. f < length faces"
  shows "\<exists>r. find_across faces i v1 v2 a2 a1 = Inr r"
  using assms by (induction a1) (auto simp: Let_def)


lemma edge_manifold_inj:
  assumes "edge_manifold faces" "i < length faces" "j < 3" "i' < length faces" "j' < 3"
    and "dedge faces i j = dedge faces i' j'"
  shows "i = i' \<and> j = j'"
proof -
  from assms(1) have "inj_on (\<lambda>(i, j). dedge faces i j) (set (face_edges (length faces)))"
    by (simp add: edge_manifold_def distinct_map)
  moreover have "(i, j) \<in> set (face_edges (length faces))"
    "(i', j') \<in> set (face_edges (length faces))"
    using assms(2-5) by (simp_all add: face_edges_set)
  ultimately have "(i, j) = (i', j')"
    using assms(6) inj_onD [of "\<lambda>(i, j). dedge faces i j" _ "(i, j)" "(i', j')"] by simp
  then show ?thesis by simp
qed

lemma across_step_unfold:
  assumes "v1 = at3 (faces ! i) ((j + 1) mod 3)" and "v2 = at3 (faces ! i) ((j + 2) mod 3)"
  shows "across_step faces adj A i j =
     (if length A \<le> i \<or> length faces \<le> i then Inl OutOfRange
      else if at3 (A ! i) j \<noteq> - 1 then Inr A
      else if length adj \<le> v1 \<or> length adj \<le> v2 then Inl OutOfRange
      else (case find_across faces i v1 v2 (adj ! v2) (adj ! v1) of
              Inl e \<Rightarrow> Inl e
            | Inr None \<Rightarrow> Inr A
            | Inr (Some (other, ind)) \<Rightarrow>
                (if length A \<le> other then Inl OutOfRange
                 else Inr ((A[i := upd3 (A ! i) j (int other)])
                             [other := upd3 ((A[i := upd3 (A ! i) j (int other)]) ! other) ind
                                         (int i)]))))"
  by (auto simp: across_step_def Let_def assms split: sum.splits option.splits)

lemma across_step_paired:
  assumes inv: "across_paired faces A" and man: "edge_manifold faces" and adj: "adj_ok faces adj"
    and ij: "i < length faces" "j < 3" and step: "across_step faces adj A i j = Inr A'"
  shows "across_paired faces A'"
proof (cases "A' = A")
  case True
  then show ?thesis using inv by simp
next
  case False
  have len: "length A = length faces" using inv by (simp add: across_paired_def)
  define v1 where "v1 = at3 (faces ! i) ((j + 1) mod 3)"
  define v2 where "v2 = at3 (faces ! i) ((j + 2) mod 3)"
  define A1 where "A1 other = A[i := upd3 (A ! i) j (int other)]" for other
  from step False obtain other ind where
    sent: "at3 (A ! i) j = - 1" and v: "v1 < length adj"
    and fa: "find_across faces i v1 v2 (adj ! v2) (adj ! v1) = Inr (Some (other, ind))"
    and A': "A' = (A1 other)[other := upd3 (A1 other ! other) ind (int i)]"
    unfolding across_step_unfold [OF v1_def v2_def]
    by (auto simp: A1_def not_le split: if_splits sum.splits option.splits)
  from adj v have "\<forall>f \<in> set (adj ! v1). f < length faces \<and> v1 \<in> set (corners (faces ! f))"
    by (simp add: adj_ok_def)
  from find_across_sound [OF fa this] have
    s: "other < length faces" "other \<noteq> i" "ind < 3"
    "at3 (faces ! other) ((ind + 1) mod 3) = v2" "at3 (faces ! other) ((ind + 2) mod 3) = v1"
    by simp_all
  have part: "dedge faces other ind = prod.swap (dedge faces i j)"
    using s(4,5) by (simp add: dedge_def v1_def v2_def)
  have rd: "at3 (A' ! p) q = (if p = other \<and> q = ind then int i
                              else if p = i \<and> q = j then int other else at3 (A ! p) q)"
    if "p < length faces" "q < 3" for p q
    using that s(1-3) len ij by (auto simp: A' A1_def nth_list_update at3_upd3)
  show ?thesis
    unfolding across_paired_def
  proof (intro conjI allI impI)
    show "length A' = length faces" by (simp add: A' A1_def len)
  next
    fix p q
    assume p: "p < length faces" and q: "q < 3" and ne: "at3 (A' ! p) q \<noteq> - 1"
    consider (a) "p = other \<and> q = ind" | (b) "p = i \<and> q = j"
      | (c) "\<not> (p = other \<and> q = ind)" "\<not> (p = i \<and> q = j)" by blast
    then show "\<exists>k<length faces. \<exists>j'<3. at3 (A' ! p) q = int k
                 \<and> dedge faces k j' = prod.swap (dedge faces p q) \<and> at3 (A' ! k) j' = int p"
    proof cases
      case a
      have "at3 (A' ! p) q = int i" using a rd [OF p q] by simp
      moreover have "dedge faces i j = prod.swap (dedge faces p q)" using a part by simp
      moreover have "at3 (A' ! i) j = int p" using a rd [OF ij] s(2) by simp
      ultimately show ?thesis using ij by blast
    next
      case b
      have "at3 (A' ! p) q = int other" using b rd [OF p q] s(2) by simp
      moreover have "dedge faces other ind = prod.swap (dedge faces p q)" using b part by simp
      moreover have "at3 (A' ! other) ind = int p" using b rd [OF s(1,3)] by simp
      ultimately show ?thesis using s(1,3) by blast
    next
      case c
      have same: "at3 (A' ! p) q = at3 (A ! p) q" using c rd [OF p q] by auto
      with ne inv p q obtain k j' where
        k: "k < length faces" "j' < 3" "at3 (A ! p) q = int k"
        "dedge faces k j' = prod.swap (dedge faces p q)" "at3 (A ! k) j' = int p"
        unfolding across_paired_def by metis
      have n1: "\<not> (k = i \<and> j' = j)" using k(5) sent by auto
      have n2: "\<not> (k = other \<and> j' = ind)"
      proof
        assume "k = other \<and> j' = ind"
        then have "prod.swap (dedge faces p q) = prod.swap (dedge faces i j)"
          using k(4) part by simp
        then have "dedge faces p q = dedge faces i j" by (metis swap_swap)
        from edge_manifold_inj [OF man p q ij this] c(2) show False by simp
      qed
      have "at3 (A' ! k) j' = int p" using rd [OF k(1,2)] n1 n2 k(5) by auto
      then show ?thesis using k same by auto
    qed
  qed
qed

lemma faces_in_range_at3:
  "faces_in_range nv faces \<Longrightarrow> i < length faces \<Longrightarrow> k < 3 \<Longrightarrow> at3 (faces ! i) k < nv"
  using at3_in_corners [of k "faces ! i"]
  by (auto simp: faces_in_range_def list_all_iff)

lemma across_step_total:
  assumes "i < length faces" "length A = length faces" "j < 3"
    and "faces_in_range (length adj) faces" and adj: "adj_ok faces adj"
  shows "\<exists>A'. across_step faces adj A i j = Inr A'"
proof -
  define v1 where "v1 = at3 (faces ! i) ((j + 1) mod 3)"
  define v2 where "v2 = at3 (faces ! i) ((j + 2) mod 3)"
  have v: "v1 < length adj" "v2 < length adj"
    using faces_in_range_at3 [OF assms(4,1)] by (simp_all add: v1_def v2_def)
  have ok: "\<forall>f \<in> set (adj ! v1). f < length faces \<and> v1 \<in> set (corners (faces ! f))"
    using adj v by (simp add: adj_ok_def)
  then obtain r where r: "find_across faces i v1 v2 (adj ! v2) (adj ! v1) = Inr r"
    using find_across_total [of "adj ! v1" faces i v1 v2 "adj ! v2"] by auto
  show ?thesis
  proof (cases r)
    case None
    then show ?thesis using r v assms(1,2)
      by (simp add: across_step_unfold [OF v1_def v2_def])
  next
    case (Some x)
    obtain other ind where x: "x = (other, ind)" by (cases x) auto
    from find_across_sound [OF r [unfolded Some x] ok] have "other < length faces" by simp
    then show ?thesis using r v assms(1,2) Some x
      by (simp add: across_step_unfold [OF v1_def v2_def])
  qed
qed

lemma across_loop_paired:
  assumes "edge_manifold faces" "adj_ok faces adj" "faces_in_range (length adj) faces"
    and "\<forall>(i, j) \<in> set ps. i < length faces \<and> j < 3" and "across_paired faces A"
  shows "\<exists>A'. across_loop faces adj A ps = Inr A' \<and> across_paired faces A'"
  using assms(4,5)
proof (induction ps arbitrary: A)
  case Nil
  then show ?case by simp
next
  case (Cons ij ps)
  obtain i j where ij: "ij = (i, j)" by (cases ij) auto
  from Cons.prems(1) have r: "i < length faces" "j < 3" by (simp_all add: ij)
  have len: "length A = length faces" using Cons.prems(2) by (simp add: across_paired_def)
  from across_step_total [OF r(1) len r(2) assms(3,2)] obtain A1 where
    st: "across_step faces adj A i j = Inr A1" by blast
  have "across_paired faces A1"
    by (rule across_step_paired [OF Cons.prems(2) assms(1,2) r st])
  from Cons.IH [OF _ this] Cons.prems(1) show ?case by (simp add: ij st)
qed


lemma count_adjacent_total:
  "faces_in_range nv fs \<Longrightarrow> length num = nv \<Longrightarrow> \<exists>n. count_adjacent num fs = Inr n"
proof (induction fs arbitrary: num)
  case Nil
  then show ?case by simp
next
  case (Cons f fs)
  obtain f0 f1 f2 where f: "f = (f0, f1, f2)" by (cases f) auto
  from Cons.prems(1) have r: "f0 < nv" "f1 < nv" "f2 < nv" "faces_in_range nv fs"
    by (simp_all add: faces_in_range_def f)
  show ?case
    using r(1-3) Cons.prems(2)
    by (simp add: f Let_def) (rule Cons.IH [OF r(4)], simp)
qed

lemma adj_push_total:
  "list_all (\<lambda>v. v < length adj) vs \<Longrightarrow> \<exists>a. adj_push adj i vs = Inr a \<and> length a = length adj"
proof (induction vs arbitrary: adj)
  case Nil
  then show ?case by simp
next
  case (Cons v vs)
  then have "list_all (\<lambda>u. u < length (adj[v := adj ! v @ [i]])) vs" by simp
  from Cons.IH [OF this] Cons.prems show ?case by simp
qed

lemma adj_faces_total:
  "faces_in_range (length adj) fs \<Longrightarrow> \<exists>a. adj_faces adj i fs = Inr a"
proof (induction fs arbitrary: adj i)
  case Nil
  then show ?case by simp
next
  case (Cons f fs)
  from Cons.prems have r: "list_all (\<lambda>v. v < length adj) (corners f)"
    "faces_in_range (length adj) fs" by (simp_all add: faces_in_range_def)
  from adj_push_total [OF r(1), of i] obtain a where
    a: "adj_push adj i (corners f) = Inr a" "length a = length adj" by blast
  from Cons.IH [of a "i + 1"] r(2) a(2) obtain a' where "adj_faces a (i + 1) fs = Inr a'"
    by auto
  then show ?case using a(1) by simp
qed

lemma need_adjacentfaces_fresh:
  assumes "mVAdjFaces m = []" and rng: "faces_in_range (length (mVertices m)) (mFaces m)"
  shows "\<exists>adj. need_adjacentfaces m = Inr (m\<lparr>mVAdjFaces := adj\<rparr>)
           \<and> length adj = length (mVertices m) \<and> adj_ok (mFaces m) adj"
proof -
  let ?nv = "length (mVertices m)"
  from count_adjacent_total [OF rng, of "replicate ?nv 0"] obtain n where
    n: "count_adjacent (replicate ?nv 0) (mFaces m) = Inr n" by auto
  from adj_faces_total [of "replicate ?nv []" "mFaces m" 0] rng obtain adj where
    a: "adj_faces (replicate ?nv []) 0 (mFaces m) = Inr adj" by auto
  have "adj_ok ([] @ mFaces m) (replicate ?nv [])" by (simp add: adj_ok_def)
  from adj_faces_ok [of "replicate ?nv []" "[]" "mFaces m" adj] a this
  have "adj_ok (mFaces m) adj" "length adj = ?nv" by simp_all
  moreover have "need_adjacentfaces m = Inr (m\<lparr>mVAdjFaces := adj\<rparr>)"
    using assms(1) n a by (simp add: need_adjacentfaces_def)
  ultimately show ?thesis by blast
qed

lemma across_paired_symmetric:
  assumes "across_paired faces A"
  shows "across_symmetric A"
  unfolding across_symmetric_def
proof (intro allI impI)
  fix i j
  assume i: "i < length A" and j: "j < (3::nat)" and ne: "at3 (A ! i) j \<noteq> - 1"
  from assms have len: "length A = length faces" by (simp add: across_paired_def)
  from assms i j ne len obtain k j' where
    "k < length faces" "j' < 3" "at3 (A ! i) j = int k" "at3 (A ! k) j' = int i"
    unfolding across_paired_def by force
  then show "\<exists>k<length A. at3 (A ! i) j = int k \<and> (\<exists>j'<3. at3 (A ! k) j' = int i)"
    using len by auto
qed

text \<open>
  C3 (amended). For a mesh with nothing cached, whose faces name existing vertices and in
  which no directed edge belongs to two face slots (\<open>edge_manifold\<close>),
  \<open>need_across_edge\<close> returns, leaves the faces unchanged, and the table it leaves is
  symmetric: if the entry of face \<open>i\<close> at edge \<open>j\<close> is a face \<open>k\<close> (not \<open>-1\<close>), then some
  edge of face \<open>k\<close> has the entry \<open>i\<close>.
\<close>

theorem need_across_edge_symmetric_manifold:
  assumes fresh: "mVAdjFaces m = []" "mFAcrossEdge m = []"
    and rng: "faces_in_range (length (mVertices m)) (mFaces m)"
    and man: "edge_manifold (mFaces m)"
  shows "\<exists>m'. need_across_edge m = Inr m' \<and> mFaces m' = mFaces m
           \<and> across_symmetric (mFAcrossEdge m')"
proof -
  from need_adjacentfaces_fresh [OF fresh(1) rng] obtain adj where
    adj: "need_adjacentfaces m = Inr (m\<lparr>mVAdjFaces := adj\<rparr>)"
    "length adj = length (mVertices m)" "adj_ok (mFaces m) adj" by blast
  show ?thesis
  proof (cases "adj = []")
    case True
    then have "need_across_edge m = Inr (m\<lparr>mVAdjFaces := adj\<rparr>)"
      using fresh(2) adj(1) by (simp add: need_across_edge_def)
    then show ?thesis using fresh(2) by (simp add: across_symmetric_def)
  next
    case False
    let ?nf = "length (mFaces m)"
    have init: "across_paired (mFaces m) (replicate ?nf (- 1, - 1, - 1))"
      by (simp add: across_paired_def)
    have ps: "\<forall>(i, j) \<in> set (face_edges ?nf). i < ?nf \<and> j < 3"
      by (auto simp: face_edges_set)
    from across_loop_paired [OF man adj(3) _ ps init] rng adj(2) obtain A where
      A: "across_loop (mFaces m) adj (replicate ?nf (- 1, - 1, - 1)) (face_edges ?nf) = Inr A"
      "across_paired (mFaces m) A" by auto
    have "need_across_edge m = Inr (m\<lparr>mVAdjFaces := adj, mFAcrossEdge := A\<rparr>)"
      using fresh(2) adj(1) False A(1) by (simp add: need_across_edge_def)
    then show ?thesis using across_paired_symmetric [OF A(2)] by simp
  qed
qed

lemma face_edges_2: "face_edges 2 = [(0, 0), (0, 1), (0, 2), (1, 0), (1, 1), (1, 2)]"
  by (simp add: face_edges_def upt_rec)

theorem need_across_edge_symmetric_manifold_witness:
  "\<exists>m'. need_across_edge two_triangles = Inr m' \<and> mFaces m' = mFaces two_triangles
         \<and> across_symmetric (mFAcrossEdge m')"
proof (rule need_across_edge_symmetric_manifold)
  show "mVAdjFaces two_triangles = []" "mFAcrossEdge two_triangles = []"
    by (simp_all add: two_triangles_def plain_mesh_def)
  show "faces_in_range (length (mVertices two_triangles)) (mFaces two_triangles)"
    by (simp add: two_triangles_def plain_mesh_def faces_in_range_def)
  have "edge_manifold [(0, 1, 2), (0, 2, 3)]"
    by code_simp
  then show "edge_manifold (mFaces two_triangles)"
    by (simp add: two_triangles_def plain_mesh_def)
qed

lemma three_adj: "need_adjacentfaces three_on_an_edge
   = Inr (three_on_an_edge\<lparr>mVAdjFaces := [[0, 1, 2], [0, 1, 2], [0], [1], [2]]\<rparr>)"
  by (simp add: need_adjacentfaces_def three_on_an_edge_def plain_mesh_def)

lemma three_loop:
  "across_loop [(0, 1, 2), (1, 0, 3), (1, 0, 4)] [[0, 1, 2], [0, 1, 2], [0], [1], [2]]
     (replicate 3 (- 1, - 1, - 1)) (face_edges 3)
   = Inr [(- 1, - 1, 2), (- 1, - 1, 0), (- 1, - 1, 0)]"
  by code_simp

text \<open>
  C3 (as stated) fails when three faces meet in one edge: face 0 = (0,1,2) first pairs
  with face 1 = (1,0,3) over the edge 0-1, then face 2 = (1,0,4) pairs with face 0 over the
  same edge and overwrites the entry of face 0. Face 1 still names face 0, and no entry of
  face 0 names face 1.
\<close>

theorem need_across_edge_three_on_an_edge_counterexample:
  "need_across_edge three_on_an_edge
     = Inr (three_on_an_edge\<lparr>mVAdjFaces := [[0, 1, 2], [0, 1, 2], [0], [1], [2]],
              mFAcrossEdge := [(- 1, - 1, 2), (- 1, - 1, 0), (- 1, - 1, 0)]\<rparr>)
   \<and> \<not> across_symmetric [(- 1, - 1, 2), (- 1, - 1, 0), (- 1, - 1, 0)]"
proof
  let ?m1 = "three_on_an_edge\<lparr>mVAdjFaces := [[0, 1, 2], [0, 1, 2], [0], [1], [2]]\<rparr>"
  show "need_across_edge three_on_an_edge
     = Inr (three_on_an_edge\<lparr>mVAdjFaces := [[0, 1, 2], [0, 1, 2], [0], [1], [2]],
              mFAcrossEdge := [(- 1, - 1, 2), (- 1, - 1, 0), (- 1, - 1, 0)]\<rparr>)"
  proof (rule need_across_edge_fresh [OF _ three_adj])
    show "mFAcrossEdge three_on_an_edge = []" by (simp add: three_on_an_edge_def plain_mesh_def)
    have e1: "mFaces ?m1 = [(0, 1, 2), (1, 0, 3), (1, 0, 4)]"
      by (simp add: three_on_an_edge_def plain_mesh_def)
    have e2: "mVAdjFaces ?m1 = [[0, 1, 2], [0, 1, 2], [0], [1], [2]]" by simp
    have e3: "length [(0, 1, 2), (1, 0, 3), (1, 0, 4 :: nat)] = (3 :: nat)" by simp
    show "mVAdjFaces ?m1 \<noteq> []" by simp
    show "across_loop (mFaces ?m1) (mVAdjFaces ?m1)
            (replicate (length (mFaces ?m1)) (- 1, - 1, - 1)) (face_edges (length (mFaces ?m1)))
          = Inr [(- 1, - 1, 2), (- 1, - 1, 0), (- 1, - 1, 0)]"
      by (simp only: e1 e2 e3 three_loop)
  qed
next
  show "\<not> across_symmetric [(- 1, - 1, 2), (- 1, - 1, 0), (- 1, - 1, 0)]"
  proof
    let ?A = "[(- 1, - 1, 2), (- 1, - 1, 0), (- 1, - 1, 0 :: int)]"
    assume "across_symmetric ?A"
    from this [unfolded across_symmetric_def, rule_format, of 1 2]
    have "\<exists>k < 3. at3 (?A ! 1) 2 = int k \<and> (\<exists>j' < 3. at3 (?A ! k) j' = int 1)"
      by simp
    then obtain k j' where k: "k < 3" "at3 (?A ! 1) 2 = int k" "j' < 3" "at3 (?A ! k) j' = int 1"
      by blast
    from k(2) have "k = 0" by simp
    with k(3,4) show False by (simp split: if_splits)
  qed
qed

subsection \<open>Periodic reconstruction\<close>

lemma dup_key_inj:
  assumes "covering_ok dt n"
  shows "inj_on (dup_key dt) (dt_handles dt)"
proof (rule inj_onI)
  fix a b
  assume a: "a \<in> dt_handles dt" and b: "b \<in> dt_handles dt" and eq: "dup_key dt a = dup_key dt b"
  from assms a b have
    ra: "fst (dt_offset dt a) \<in> {0, 1, 2}" "snd (dt_offset dt a) \<in> {0, 1, 2}" and
    rb: "fst (dt_offset dt b) \<in> {0, 1, 2}" "snd (dt_offset dt b) \<in> {0, 1, 2}"
    by (auto simp: covering_ok_def)
  from eq have "dt_info dt a = dt_info dt b" by (simp add: dup_key_def)
  moreover from eq ra(1) rb(1) have "fst (dt_offset dt a) = fst (dt_offset dt b)"
    by (auto simp: dup_key_def split: if_splits)
  moreover from eq ra(2) rb(2) have "snd (dt_offset dt a) = snd (dt_offset dt b)"
    by (auto simp: dup_key_def split: if_splits)
  ultimately have "(dt_info dt a, dt_offset dt a) = (dt_info dt b, dt_offset dt b)"
    by (simp add: prod_eq_iff)
  with assms a b show "a = b"
    unfolding covering_ok_def by (meson inj_onD)
qed

lemma face_below_upd3: "face_below n f \<Longrightarrow> d < n \<Longrightarrow> face_below n (upd3 f vid d)"
  by (cases f) (auto simp: face_below_def)

lemma face_below_mono: "face_below n f \<Longrightarrow> n \<le> n' \<Longrightarrow> face_below n' f"
  by (cases f) (auto simp: face_below_def)

lemma dup_inv_insert:
  assumes cov: "covering_ok dt n" and inv: "dup_inv dt n dups dh"
    and vh: "vh \<in> dt_handles dt" and new: "dh vh = None"
  shows "dup_inv dt n (dups @ [dup_key dt vh]) (dh(vh \<mapsto> length dups + n))"
proof -
  from inv have dist: "distinct dups"
    and b: "\<And>h d. dh h = Some d \<Longrightarrow>
            h \<in> dt_handles dt \<and> n \<le> d \<and> d - n < length dups \<and> dups ! (d - n) = dup_key dt h"
    and c: "\<And>k. k \<in> set dups \<Longrightarrow> \<exists>h. dh h \<noteq> None \<and> dup_key dt h = k"
    by (auto simp: dup_inv_def)
  have fresh: "dup_key dt vh \<notin> set dups"
  proof
    assume "dup_key dt vh \<in> set dups"
    from c [OF this] obtain h d where h: "dh h = Some d" "dup_key dt h = dup_key dt vh" by auto
    from b [OF h(1)] have "h \<in> dt_handles dt" by simp
    with dup_key_inj [OF cov] vh h(2) have "h = vh" by (auto dest: inj_onD)
    with h(1) new show False by simp
  qed
  show ?thesis
    unfolding dup_inv_def
  proof (intro conjI allI impI ballI)
    show "distinct (dups @ [dup_key dt vh])" using dist fresh by simp
  next
    fix h d
    assume hd: "(dh(vh \<mapsto> length dups + n)) h = Some d"
    show "h \<in> dt_handles dt" using hd vh b by (auto split: if_splits)
    show "n \<le> d" using hd b by (auto split: if_splits)
    show "d - n < length (dups @ [dup_key dt vh])" using hd b by (fastforce split: if_splits)
    show "(dups @ [dup_key dt vh]) ! (d - n) = dup_key dt h"
      using hd b by (auto simp: nth_append split: if_splits)
  next
    fix k
    assume "k \<in> set (dups @ [dup_key dt vh])"
    then consider "k \<in> set dups" | "k = dup_key dt vh" by auto
    then show "\<exists>h. (dh(vh \<mapsto> length dups + n)) h \<noteq> None \<and> dup_key dt h = k"
    proof cases
      case 1
      from c [OF 1] obtain h where "dh h \<noteq> None" "dup_key dt h = k" by auto
      then show ?thesis by (intro exI [of _ h]) auto
    next
      case 2
      then show ?thesis by (intro exI [of _ vh]) simp
    qed
  qed
qed

lemma unwrap_corners_inv:
  assumes cov: "covering_ok dt n"
    and "set (corners fverts) \<subseteq> dt_handles dt"
    and "unwrap_corners dt n fverts vids (dups, dh, face) = (dups', dh', face')"
    and "dup_inv dt n dups dh" and "face_below (n + length dups) face"
  shows "dup_inv dt n dups' dh' \<and> face_below (n + length dups') face'
         \<and> length dups \<le> length dups'"
  using assms(3-5)
proof (induction vids arbitrary: dups dh face)
  case Nil
  then show ?case by simp
next
  case (Cons vid vids)
  define vh where "vh = at3 fverts vid"
  have vhH: "vh \<in> dt_handles dt"
    using assms(2) by (cases fverts) (auto simp: vh_def)
  show ?case
  proof (cases "fst (dt_offset dt vh) = 0 \<and> snd (dt_offset dt vh) = 0")
    case True
    then have "unwrap_corners dt n fverts vids (dups, dh, face) = (dups', dh', face')"
      using Cons.prems(1) by (simp add: vh_def Let_def)
    from Cons.IH [OF this Cons.prems(2,3)] show ?thesis .
  next
    case False
    define dups1 where "dups1 = (if dh vh = None then dups @ [dup_key dt vh] else dups)"
    define dh1 where "dh1 = (if dh vh = None then dh(vh \<mapsto> length dups + n) else dh)"
    have inv1: "dup_inv dt n dups1 dh1"
      using dup_inv_insert [OF cov Cons.prems(2) vhH] Cons.prems(2)
      by (simp add: dups1_def dh1_def)
    obtain d where d: "dh1 vh = Some d" by (cases "dh vh") (auto simp: dh1_def)
    with inv1 have dlt: "d < n + length dups1" by (fastforce simp: dup_inv_def)
    have len: "length dups \<le> length dups1" by (simp add: dups1_def)
    have rec: "unwrap_corners dt n fverts vids (dups1, dh1, upd3 face vid d) = (dups', dh', face')"
      using Cons.prems(1) False d
      by (auto simp: vh_def [symmetric] Let_def dups1_def dh1_def dup_key_def map_index_def
          split: if_splits)
    have "face_below (n + length dups1) (upd3 face vid d)"
      using face_below_mono [OF Cons.prems(3), of "n + length dups1"] len dlt
      by (simp add: face_below_upd3)
    from Cons.IH [OF rec inv1 this] len show ?thesis by simp
  qed
qed


lemma periodic_faces_Cons:
  assumes "num = length (filter (\<lambda>vh. dt_offset dt vh = (0, 0)) (corners fverts))"
    and "face = (dt_info dt (at3 fverts 0), dt_info dt (at3 fverts 1), dt_info dt (at3 fverts 2))"
  shows "periodic_faces dt n (fverts # rest) (m, dh) =
     (if num = 0 then periodic_faces dt n rest (m, dh)
      else if num = 3 then periodic_faces dt n rest (m\<lparr>mFaces := mFaces m @ [face]\<rparr>, dh)
      else (case unwrap_corners dt n fverts [0, 1, 2] (mDuplicateVerts_OrigIds m, dh, face) of
              (dups, dh', face') \<Rightarrow>
                periodic_faces dt n rest
                  (m\<lparr>mPeriodicFaces := mPeriodicFaces m @ [face],
                     mDuplicateVerts_OrigIds := dups,
                     mTrimmedFaces := mTrimmedFaces m @ [face']\<rparr>, dh')))"
  unfolding assms by (simp add: Let_def split: prod.splits)

lemma periodic_faces_inv:
  assumes cov: "covering_ok dt n"
    and "set fs \<subseteq> set (dt_faces dt)"
    and "periodic_faces dt n fs (m, dh) = (m', dh')"
    and "dup_inv dt n (mDuplicateVerts_OrigIds m) dh"
    and "\<forall>f \<in> set (mFaces m) \<union> set (mTrimmedFaces m).
           face_below (n + length (mDuplicateVerts_OrigIds m)) f"
  shows "dup_inv dt n (mDuplicateVerts_OrigIds m') dh'
         \<and> (\<forall>f \<in> set (mFaces m') \<union> set (mTrimmedFaces m').
               face_below (n + length (mDuplicateVerts_OrigIds m')) f)
         \<and> mVertices m' = mVertices m \<and> mBox0 m' = mBox0 m \<and> mBox1 m' = mBox1 m
         \<and> bbox_valid m' = bbox_valid m"
  using assms(2-5)
proof (induction fs arbitrary: m dh)
  case Nil
  then show ?case by simp
next
  case (Cons fverts rest)
  from Cons.prems(1) have sub: "set rest \<subseteq> set (dt_faces dt)"
    and hs: "set (corners fverts) \<subseteq> dt_handles dt"
    by (auto simp: dt_handles_def)
  define num where "num = length (filter (\<lambda>vh. dt_offset dt vh = (0, 0)) (corners fverts))"
  define face where "face = (dt_info dt (at3 fverts 0), dt_info dt (at3 fverts 1),
                        dt_info dt (at3 fverts 2))"
  have "\<forall>k < 3. at3 fverts k \<in> dt_handles dt"
    using hs by (cases fverts) auto
  then have "\<forall>k < 3. dt_info dt (at3 fverts k) < n"
    using cov by (auto simp: covering_ok_def)
  then have fb: "face_below n face"
    by (simp add: face_def face_below_def)
  let ?dups = "mDuplicateVerts_OrigIds m"
  note step = Cons.prems(2) [unfolded periodic_faces_Cons [OF num_def face_def]]
  consider (none) "num = 0" | (all) "num \<noteq> 0" "num = 3" | (some) "num \<noteq> 0" "num \<noteq> 3"
    by blast
  then show ?case
  proof cases
    case none
    then have "periodic_faces dt n rest (m, dh) = (m', dh')"
      using step by simp
    from Cons.IH [OF sub this Cons.prems(3,4)] show ?thesis .
  next
    case all
    then have rec: "periodic_faces dt n rest (m\<lparr>mFaces := mFaces m @ [face]\<rparr>, dh) = (m', dh')"
      using step by simp
    have "\<forall>f \<in> set (mFaces (m\<lparr>mFaces := mFaces m @ [face]\<rparr>))
               \<union> set (mTrimmedFaces (m\<lparr>mFaces := mFaces m @ [face]\<rparr>)).
           face_below (n + length (mDuplicateVerts_OrigIds (m\<lparr>mFaces := mFaces m @ [face]\<rparr>))) f"
      using Cons.prems(4) face_below_mono [OF fb, of "n + length ?dups"] by auto
    from Cons.IH [OF sub rec _ this] Cons.prems(3) show ?thesis by simp
  next
    case some
    obtain dups1 dh1 face1 where
      un: "unwrap_corners dt n fverts [0, 1, 2] (?dups, dh, face) = (dups1, dh1, face1)"
      by (metis prod_cases3)
    define m1 where "m1 = m\<lparr>mPeriodicFaces := mPeriodicFaces m @ [face],
                            mDuplicateVerts_OrigIds := dups1,
                            mTrimmedFaces := mTrimmedFaces m @ [face1]\<rparr>"
    have rec: "periodic_faces dt n rest (m1, dh1) = (m', dh')"
      using step some un by (simp add: m1_def)
    from unwrap_corners_inv [OF cov hs un Cons.prems(3)]
      face_below_mono [OF fb, of "n + length ?dups"]
    have u: "dup_inv dt n dups1 dh1" "face_below (n + length dups1) face1"
      "length ?dups \<le> length dups1" by simp_all
    have "\<forall>f \<in> set (mFaces m1) \<union> set (mTrimmedFaces m1).
            face_below (n + length (mDuplicateVerts_OrigIds m1)) f"
      using Cons.prems(4) u(2,3) by (auto simp: m1_def intro: face_below_mono)
    moreover have "dup_inv dt n (mDuplicateVerts_OrigIds m1) dh1"
      using u(1) by (simp add: m1_def)
    ultimately show ?thesis
      using Cons.IH [OF sub rec] by (simp add: m1_def)
  qed
qed

lemma duplicate_vertex_total:
  "fst dm < length verts \<Longrightarrow> \<exists>dv. duplicate_vertex ops verts boxw dm = Inr dv"
  by (cases dm) (simp add: duplicate_vertex_def Let_def del: split_paired_Ex)

lemma duplicate_all_total:
  "\<forall>dm \<in> set dms. fst dm < length verts \<Longrightarrow> \<exists>dvs. duplicate_all ops verts boxw dms = Inr dvs"
proof (induction dms)
  case Nil
  show ?case by simp
next
  case (Cons dm dms)
  from Cons.prems have "fst dm < length verts" by simp
  from duplicate_vertex_total [OF this] obtain dv where
    dv: "duplicate_vertex ops verts boxw dm = Inr dv" by blast
  from Cons obtain dvs where dvs: "duplicate_all ops verts boxw dms = Inr dvs" by auto
  show ?case by (simp add: dv dvs)
qed

lemma create_duplicate_vertices_total:
  assumes "\<forall>dm \<in> set (mDuplicateVerts_OrigIds m). fst dm < length (mVertices m)"
  shows "\<exists>dvs. create_duplicate_vertices ops m = Inr (m\<lparr>mDuplicateVerts := dvs\<rparr>)"
proof (cases "length (mVertices m) = 0 \<or> length (mDuplicateVerts_OrigIds m) = 0 \<or> \<not> bbox_valid m")
  case True
  have "create_duplicate_vertices ops m = Inr m"
    by (simp only: create_duplicate_vertices_def Let_def True if_True)
  then have "create_duplicate_vertices ops m = Inr (m\<lparr>mDuplicateVerts := mDuplicateVerts m\<rparr>)"
    by simp
  then show ?thesis ..
next
  case False
  from duplicate_all_total [OF assms, of ops "vsub ops (mBox1 m) (mBox0 m)"] obtain dvs where
    d: "duplicate_all ops (mVertices m) (vsub ops (mBox1 m) (mBox0 m)) (mDuplicateVerts_OrigIds m)
       = Inr dvs"
    by blast
  have "create_duplicate_vertices ops m = Inr (m\<lparr>mDuplicateVerts := dvs\<rparr>)"
    by (simp only: create_duplicate_vertices_def Let_def False if_False d sum.case)
  then show ?thesis ..
qed

text \<open>
  C7 (as stated) fails when the reconstruction runs on a mesh object that it has already
  processed. Only \<open>mFaces\<close> is cleared when the post-processing starts; the duplicate list,
  the periodic faces and the trimmed faces are appended to. The first run on the square
  leaves the keys \<open>(0,1,0)\<close> and \<open>(3,1,0)\<close> in the duplicate list; after the second run
  each of them is in the list twice, and the key \<open>(0,1,0)\<close> is referenced by the kept
  faces under the two vertex indices 4 and 6.
\<close>

theorem delaunay_unwrap_second_run_counterexample:
  "delaunay_unwrap exact_ops square_covering square_mesh
     = Inr (square_mesh_unwrapped, [10 \<mapsto> 4, 13 \<mapsto> 5])
   \<and> delaunay_unwrap exact_ops square_covering square_mesh_unwrapped
     = Inr (square_mesh_unwrapped
              \<lparr> mPeriodicFaces := [(1, 0, 2), (2, 0, 3), (1, 0, 2), (2, 0, 3)],
                mTrimmedFaces := [(1, 4, 2), (2, 4, 5), (1, 6, 2), (2, 6, 7)],
                mDuplicateVerts_OrigIds := [(0, 1, 0), (3, 1, 0), (0, 1, 0), (3, 1, 0)],
                mDuplicateVerts := [(1, 0, 0), (1, 1/2, 0), (1, 0, 0), (1, 1/2, 0)] \<rparr>,
            [10 \<mapsto> 6, 13 \<mapsto> 7])
   \<and> \<not> distinct [(0, 1, 0), (3, 1, 0), (0, 1, 0), (3 :: nat, 1 :: int, 0 :: int)]"
proof -
  have n: "Suc (Suc (Suc (Suc 0))) = 4" "Suc (Suc (Suc (Suc (Suc 0)))) = 5"
    "Suc (Suc (Suc (Suc (Suc (Suc 0))))) = 6" "Suc (Suc (Suc (Suc (Suc (Suc (Suc 0)))))) = 7"
    by simp_all
  show ?thesis
    by (simp add: delaunay_unwrap_def square_covering_def square_mesh_def
        square_mesh_unwrapped_def periodic_mesh_def create_duplicate_vertices_def
        duplicate_vertex_def map_index_def exact_ops_def Let_def n)
qed

text \<open>
  C7 (amended). Let the duplicate list and the trimmed faces of the mesh be empty when the
  post-processing starts (the first reconstruction on the object), and let the
  triangulation be a covering as the external library delivers it (\<open>covering_ok\<close>: every
  \<^verbatim>\<open>info()\<close> an input vertex, offsets in \<open>{0,1,2}\<close>, one handle per vertex and offset).
  Then the post-processing returns, and
  \<^item> every key (original vertex, normalised offset pair) is in the duplicate list at most once;
  \<^item> every handle in the map is sent to the original-vertex count plus the position of its
    key in the list, and every position of the list is reached in this way by a handle whose
    key is the entry at that position;
  \<^item> every face in \<open>mFaces\<close> or \<open>mTrimmedFaces\<close> (the final kept set) has corners strictly
    below the original-vertex count plus the length of the duplicate list.
\<close>

theorem delaunay_unwrap_duplicates:
  assumes cov: "covering_ok dt (length (mVertices m))"
    and fresh: "mDuplicateVerts_OrigIds m = []" "mTrimmedFaces m = []"
  shows "\<exists>m' dh. delaunay_unwrap ops dt m = Inr (m', dh)
           \<and> distinct (mDuplicateVerts_OrigIds m')
           \<and> (\<forall>vh d. dh vh = Some d \<longrightarrow>
                 length (mVertices m) \<le> d
               \<and> d - length (mVertices m) < length (mDuplicateVerts_OrigIds m')
               \<and> mDuplicateVerts_OrigIds m' ! (d - length (mVertices m)) = dup_key dt vh)
           \<and> (\<forall>i < length (mDuplicateVerts_OrigIds m').
                 \<exists>vh. dh vh = Some (length (mVertices m) + i)
                    \<and> dup_key dt vh = mDuplicateVerts_OrigIds m' ! i)
           \<and> (\<forall>f \<in> set (mFaces m' @ mTrimmedFaces m'). \<forall>v \<in> set (corners f).
                 v < length (mVertices m) + length (mDuplicateVerts_OrigIds m'))"
proof -
  let ?n = "length (mVertices m)"
  let ?m0 = "m\<lparr>mFaces := []\<rparr>"
  obtain m2 dh where pf: "periodic_faces dt ?n (dt_faces dt) (?m0, Map.empty) = (m2, dh)"
    by (metis surj_pair)
  have inv0: "dup_inv dt ?n (mDuplicateVerts_OrigIds ?m0) Map.empty"
    using fresh by (simp add: dup_inv_def)
  have fb0: "\<forall>f \<in> set (mFaces ?m0) \<union> set (mTrimmedFaces ?m0).
           face_below (?n + length (mDuplicateVerts_OrigIds ?m0)) f"
    using fresh by simp
  from periodic_faces_inv [OF cov subset_refl pf inv0 fb0] have
    inv: "dup_inv dt ?n (mDuplicateVerts_OrigIds m2) dh"
    and fb: "\<forall>f \<in> set (mFaces m2) \<union> set (mTrimmedFaces m2).
               face_below (?n + length (mDuplicateVerts_OrigIds m2)) f"
    and vs: "mVertices m2 = mVertices m"
    by simp_all
  let ?dups = "mDuplicateVerts_OrigIds m2"
  from inv have dist: "distinct ?dups"
    and b: "\<And>h d. dh h = Some d \<Longrightarrow>
            h \<in> dt_handles dt \<and> ?n \<le> d \<and> d - ?n < length ?dups \<and> ?dups ! (d - ?n) = dup_key dt h"
    and c: "\<And>k. k \<in> set ?dups \<Longrightarrow> \<exists>h. dh h \<noteq> None \<and> dup_key dt h = k"
    by (auto simp: dup_inv_def)
  have ids: "\<forall>dm \<in> set ?dups. fst dm < length (mVertices m2)"
  proof
    fix dm assume "dm \<in> set ?dups"
    from c [OF this] obtain h d where h: "dh h = Some d" "dup_key dt h = dm" by auto
    from b [OF h(1)] cov have "dt_info dt h < ?n" by (auto simp: covering_ok_def)
    then show "fst dm < length (mVertices m2)" using h(2) vs by (auto simp: dup_key_def)
  qed
  from create_duplicate_vertices_total [OF ids] obtain dvs where
    cd: "create_duplicate_vertices ops m2 = Inr (m2\<lparr>mDuplicateVerts := dvs\<rparr>)" by blast
  let ?m' = "m2\<lparr>mDuplicateVerts := dvs\<rparr>"
  have res: "delaunay_unwrap ops dt m = Inr (?m', dh)"
    using pf cd by (simp add: delaunay_unwrap_def Let_def)
  have p3: "\<exists>vh. dh vh = Some (?n + i) \<and> dup_key dt vh = ?dups ! i" if i: "i < length ?dups" for i
  proof -
    from c [of "?dups ! i"] i obtain h d where h: "dh h = Some d" "dup_key dt h = ?dups ! i"
      by auto
    from b [OF h(1)] h(2) have "d - ?n < length ?dups" "?dups ! (d - ?n) = ?dups ! i" "?n \<le> d"
      by simp_all
    with dist i have "d - ?n = i" by (simp add: nth_eq_iff_index_eq)
    with \<open>?n \<le> d\<close> have "d = ?n + i" by simp
    with h show ?thesis by blast
  qed
  have p4: "\<forall>f \<in> set (mFaces ?m' @ mTrimmedFaces ?m'). \<forall>v \<in> set (corners f).
                 v < ?n + length (mDuplicateVerts_OrigIds ?m')"
    using fb by (auto simp: face_below_def list_all_iff)
  show ?thesis
    using res dist b p3 p4 by (intro exI [of _ ?m'] exI [of _ dh]) simp
qed

theorem delaunay_unwrap_duplicates_witness:
  "\<exists>m' dh. delaunay_unwrap exact_ops square_covering square_mesh = Inr (m', dh)
      \<and> distinct (mDuplicateVerts_OrigIds m')
      \<and> (\<forall>i < length (mDuplicateVerts_OrigIds m').
            \<exists>vh. dh vh = Some (4 + i)
               \<and> dup_key square_covering vh = mDuplicateVerts_OrigIds m' ! i)
      \<and> (\<forall>f \<in> set (mFaces m' @ mTrimmedFaces m'). \<forall>v \<in> set (corners f).
            v < 4 + length (mDuplicateVerts_OrigIds m'))"
proof -
  have n: "length (mVertices square_mesh) = 4"
    and fresh: "mDuplicateVerts_OrigIds square_mesh = []" "mTrimmedFaces square_mesh = []"
    by (simp_all add: square_mesh_def periodic_mesh_def)
  have "covering_ok square_covering 4"
    by (auto simp: covering_ok_def dt_handles_def square_covering_def inj_on_def)
  then have cov: "covering_ok square_covering (length (mVertices square_mesh))"
    by (simp only: n)
  from delaunay_unwrap_duplicates [where ops = exact_ops, OF cov fresh] show ?thesis
    unfolding n by blast
qed

end
